theory Spec2Isabelle
  imports Main "HOL-Library.AList" "HOL-Library.Multiset"
begin

section \<open>Resource commands (st2client/commands/resource.py)\<close>

subsection \<open>Data\<close>

text \<open>
  Exceptions are values. \<open>ResourceNotFoundError\<close> and the plain \<open>Exception\<close> are the two
  the module raises itself; \<open>Foreign\<close> stands for whatever a collaborator (the manager,
  the file system, the JSON decoder, the resource type, the renderer) raises.
\<close>

datatype 'x exn = ResourceNotFoundError string | Exception string | Foreign 'x

text \<open>Keyword arguments, in insertion order. A value is a string or Python's \<open>None\<close>.\<close>

type_synonym kwargs = "(string \<times> string option) list"

text \<open>
  A resource instance: the module reads and writes its \<open>id\<close> attribute and passes every
  other attribute through untouched. \<open>inst_id = None\<close> stands for an \<open>id\<close> that is
  absent or \<open>None\<close>.
\<close>

record resource_instance =
  inst_id :: "string option"
  inst_attrs :: "(string \<times> string) list"

text \<open>The parsed command line (an argparse namespace); \<open>file_path\<close> is its \<open>file\<close>.\<close>

record args =
  token :: "string option"
  json :: bool
  name_or_id :: "string option"
  ref_or_id :: "string option"
  file_path :: string
  attr :: "string list"
  width :: "int list option"
  pack :: "string option"

datatype table = MultiColumnTable | PropertyValueTable

datatype subject = One resource_instance | Many "resource_instance list"

record output_request =
  out_subject :: subject
  out_table :: table
  out_attributes :: "string list"
  out_widths :: "int list option"
  out_json :: bool
  out_attribute_display_order :: "string list option"

text \<open>What a command does to the outside world, in the order it does it.\<close>

datatype event =
    CallGetByName "string option" kwargs
  | CallGetById "string option" kwargs
  | CallGetByRefOrId "string option" kwargs
  | CallGetAll kwargs
  | CallCreate resource_instance kwargs
  | CallUpdate resource_instance kwargs
  | CallDelete resource_instance kwargs
  | IsFile string
  | FileOpen string
  | FileRead string
  | FileClose string
  | Print string
  | PrintOutput output_request

text \<open>
  The collaborators of a command, none of which is in this module: the resource type
  (\<open>get_display_name\<close>, \<open>deserialize\<close>), the manager of the resource type (its seven
  operations, each of which may change the backend state \<open>'s\<close> and may raise), the file
  system, \<open>json.loads\<close> and the renderer \<open>print_output\<close> of the command base class.
\<close>

record ('s, 'x, 'j) collaborators =
  get_display_name :: string
  deserialize :: "'j \<Rightarrow> 'x exn + resource_instance"
  get_by_name :: "string option \<Rightarrow> kwargs \<Rightarrow> 's \<Rightarrow> ('x exn + resource_instance option) \<times> 's"
  get_by_id :: "string option \<Rightarrow> kwargs \<Rightarrow> 's \<Rightarrow> ('x exn + resource_instance option) \<times> 's"
  get_by_ref_or_id :: "string option \<Rightarrow> kwargs \<Rightarrow> 's \<Rightarrow> ('x exn + resource_instance option) \<times> 's"
  get_all :: "kwargs \<Rightarrow> 's \<Rightarrow> ('x exn + resource_instance list) \<times> 's"
  create :: "resource_instance \<Rightarrow> kwargs \<Rightarrow> 's \<Rightarrow> ('x exn + resource_instance) \<times> 's"
  update :: "resource_instance \<Rightarrow> kwargs \<Rightarrow> 's \<Rightarrow> ('x exn + resource_instance) \<times> 's"
  delete :: "resource_instance \<Rightarrow> kwargs \<Rightarrow> 's \<Rightarrow> ('x exn + unit) \<times> 's"
  isfile :: "string \<Rightarrow> bool"
  file_open :: "string \<Rightarrow> 'x exn option"
  file_read :: "string \<Rightarrow> 'x exn + string"
  json_loads :: "string \<Rightarrow> 'x exn + 'j"
  print_output :: "output_request \<Rightarrow> 'x exn option"

text \<open>The state a command runs in: the backend's state and the trace of events so far.\<close>

record 's world =
  backend :: 's
  trace :: "event list"

definition emit :: "event \<Rightarrow> 's world \<Rightarrow> 's world" where
  "emit e w = w\<lparr>trace := trace w @ [e]\<rparr>"

text \<open>A call of a manager operation: the event is recorded, the backend state replaced.\<close>

definition call :: "event \<Rightarrow> ('s \<Rightarrow> 'r \<times> 's) \<Rightarrow> 's world \<Rightarrow> 'r \<times> 's world" where
  "call e f w = (case f (backend w) of (r, s) \<Rightarrow> (r, emit e (w\<lparr>backend := s\<rparr>)))"

text \<open>Python's \<open>'%s' % x\<close> for a string or \<open>None\<close>.\<close>

fun fmt_s :: "string option \<Rightarrow> string" where
  "fmt_s None = ''None''"
| "fmt_s (Some s) = s"

text \<open>Truth value of a string or \<open>None\<close>: \<open>None\<close> and the empty string are false.\<close>

fun truthy :: "string option \<Rightarrow> bool" where
  "truthy None = False"
| "truthy (Some s) = (s \<noteq> [])"

subsection \<open>The decorator and the shared helpers\<close>

text \<open>\<open>add_auth_token_to_kwargs_from_cli\<close>: the keyword arguments the decorated \<open>run\<close> receives.\<close>

definition add_auth_token_to_kwargs_from_cli :: "args \<Rightarrow> kwargs \<Rightarrow> kwargs" where
  "add_auth_token_to_kwargs_from_cli ns kwargs =
     (if truthy (token ns) then AList.update ''token'' (token ns) kwargs else kwargs)"

definition not_found_message :: "string \<Rightarrow> string option \<Rightarrow> string" where
  "not_found_message display_name name =
     display_name @ '' '' @ [CHR 0x22] @ fmt_s name @ [CHR 0x22] @ '' is not found.'' @ [CHR 0x0A]"

text \<open>\<open>print\<close> is the event \<open>Print\<close> with the string it is given; the line end that
  \<open>print\<close> adds of its own is not part of it.\<close>

definition print_not_found :: "('s, 'x, 'j) collaborators \<Rightarrow> string option \<Rightarrow> 's world \<Rightarrow> 's world" where
  "print_not_found c name w = emit (Print (not_found_message (get_display_name c) name)) w"

definition name_or_id_message :: "string option \<Rightarrow> string" where
  "name_or_id_message ident =
     ''Resource with id or name '' @ [CHR 0x22] @ fmt_s ident @ [CHR 0x22] @ '' doesn't exist.''"

definition ref_or_id_message :: "string option \<Rightarrow> string" where
  "ref_or_id_message ident =
     ''Resource with id or reference '' @ [CHR 0x22] @ fmt_s ident @ [CHR 0x22] @ '' doesn't exist.''"

definition get_resource_by_name_or_id ::
  "('s, 'x, 'j) collaborators \<Rightarrow> string option \<Rightarrow> kwargs \<Rightarrow> 's world \<Rightarrow> ('x exn + resource_instance) \<times> 's world" where
  "get_resource_by_name_or_id c ident kwargs w =
     (case call (CallGetByName ident kwargs) (get_by_name c ident kwargs) w of
        (Inl e, w1) \<Rightarrow> (Inl e, w1)
      | (Inr instance1, w1) \<Rightarrow>
          (case (case instance1 of
                   None \<Rightarrow>
                     (case call (CallGetById ident kwargs) (get_by_id c ident kwargs) w1 of
                        (Inl e, w2) \<Rightarrow> (instance1, w2)
                      | (Inr instance2, w2) \<Rightarrow> (instance2, w2))
                 | Some i \<Rightarrow> (instance1, w1)) of
             (None, w3) \<Rightarrow> (Inl (ResourceNotFoundError (name_or_id_message ident)), w3)
           | (Some i, w3) \<Rightarrow> (Inr i, w3)))"

definition get_resource_by_ref_or_id ::
  "('s, 'x, 'j) collaborators \<Rightarrow> string option \<Rightarrow> kwargs \<Rightarrow> 's world \<Rightarrow> ('x exn + resource_instance) \<times> 's world" where
  "get_resource_by_ref_or_id c ident kwargs w =
     (case call (CallGetByRefOrId ident kwargs) (get_by_ref_or_id c ident kwargs) w of
        (Inl e, w1) \<Rightarrow> (Inl e, w1)
      | (Inr None, w1) \<Rightarrow> (Inl (ResourceNotFoundError (ref_or_id_message ident)), w1)
      | (Inr (Some i), w1) \<Rightarrow> (Inr i, w1))"

subsection \<open>The command classes\<close>

datatype command =
    ResourceListCommand
  | ContentPackResourceListCommand
  | ResourceGetCommand
  | ContentPackResourceGetCommand
  | ResourceCreateCommand
  | ResourceUpdateCommand
  | ContentPackResourceUpdateCommand
  | ResourceDeleteCommand
  | ContentPackResourceDeleteCommand

text \<open>
  The class attribute \<open>pk_argument_name\<close> with \<open>getattr(args, self.pk_argument_name, None)\<close>:
  the classes that set it to \<open>'ref_or_id'\<close> read that argument, the others \<open>name_or_id\<close>.
\<close>

fun pk_argument_name :: "command \<Rightarrow> string" where
  "pk_argument_name ContentPackResourceGetCommand = ''ref_or_id''"
| "pk_argument_name ContentPackResourceUpdateCommand = ''ref_or_id''"
| "pk_argument_name ContentPackResourceDeleteCommand = ''ref_or_id''"
| "pk_argument_name _ = ''name_or_id''"

definition getattr_pk :: "args \<Rightarrow> string \<Rightarrow> string option" where
  "getattr_pk a name =
     (if name = ''name_or_id'' then name_or_id a
      else if name = ''ref_or_id'' then ref_or_id a
      else None)"

text \<open>
  Method resolution of \<open>get_resource\<close>: only \<open>ContentPackResourceGetCommand\<close> overrides
  the base method.
\<close>

fun get_resource ::
  "command \<Rightarrow> ('s, 'x, 'j) collaborators \<Rightarrow> string option \<Rightarrow> kwargs \<Rightarrow> 's world \<Rightarrow> ('x exn + resource_instance) \<times> 's world" where
  "get_resource ContentPackResourceGetCommand c ident kwargs w = get_resource_by_ref_or_id c ident kwargs w"
| "get_resource _ c ident kwargs w = get_resource_by_name_or_id c ident kwargs w"

text \<open>\<open>self.print_output(...)\<close>: the renderer is asked, and may raise.\<close>

definition do_print_output ::
  "('s, 'x, 'j) collaborators \<Rightarrow> output_request \<Rightarrow> 's world \<Rightarrow> 'x exn option \<times> 's world" where
  "do_print_output c req w = (print_output c req, emit (PrintOutput req) w)"

text \<open>
  \<open>with open(path, 'r') as f: body\<close>: when the open succeeds the body runs and the file
  is closed when the block is left, by a return or by an exception alike.
\<close>

definition with_open ::
  "('s, 'x, 'j) collaborators \<Rightarrow> string \<Rightarrow> ('s world \<Rightarrow> ('x exn + 'r) \<times> 's world) \<Rightarrow> 's world
     \<Rightarrow> ('x exn + 'r) \<times> 's world" where
  "with_open c path body w =
     (case file_open c path of
        Some e \<Rightarrow> (Inl e, w)
      | None \<Rightarrow> (case body (emit (FileOpen path) w) of (r, w1) \<Rightarrow> (r, emit (FileClose path) w1)))"

text \<open>\<open>self.resource.deserialize(json.loads(f.read()))\<close>, inside the block.\<close>

definition read_instance ::
  "('s, 'x, 'j) collaborators \<Rightarrow> string \<Rightarrow> 's world \<Rightarrow> ('x exn + resource_instance) \<times> 's world" where
  "read_instance c path w =
     (let w1 = emit (FileRead path) w in
      case file_read c path of
        Inl e \<Rightarrow> (Inl e, w1)
      | Inr text \<Rightarrow>
          (case json_loads c text of
             Inl e \<Rightarrow> (Inl e, w1)
           | Inr data \<Rightarrow>
               (case deserialize c data of
                  Inl e \<Rightarrow> (Inl e, w1)
                | Inr i \<Rightarrow> (Inr i, w1))))"

text \<open>\<open>str.lower()\<close> on the ASCII letters.\<close>

definition lower :: "string \<Rightarrow> string" where
  "lower s = map (\<lambda>ch. let n = (of_char ch :: nat) in if 65 \<le> n \<and> n \<le> 90 then char_of (n + 32) else ch) s"

definition file_missing_message :: "string \<Rightarrow> string" where
  "file_missing_message path = ''File '' @ [CHR 0x22] @ path @ [CHR 0x22] @ '' does not exist.''"

definition id_mismatch_message :: "string \<Rightarrow> string" where
  "id_mismatch_message display_name =
     ''The value for the '' @ lower display_name @
     '' id in the JSON file does not match the ID provided in the command line arguments.''"

subsubsection \<open>List\<close>

definition ResourceListCommand_run ::
  "('s, 'x, 'j) collaborators \<Rightarrow> args \<Rightarrow> kwargs \<Rightarrow> 's world \<Rightarrow> ('x exn + resource_instance list) \<times> 's world" where
  "ResourceListCommand_run c a kwargs0 w =
     (let kwargs = add_auth_token_to_kwargs_from_cli a kwargs0
      in call (CallGetAll kwargs) (get_all c kwargs) w)"

definition ContentPackResourceListCommand_run ::
  "('s, 'x, 'j) collaborators \<Rightarrow> args \<Rightarrow> kwargs \<Rightarrow> 's world \<Rightarrow> ('x exn + resource_instance list) \<times> 's world" where
  "ContentPackResourceListCommand_run c a kwargs0 w =
     (let kwargs = add_auth_token_to_kwargs_from_cli a kwargs0;
          filters = [(''pack'', pack a)]
      in call (CallGetAll filters) (get_all c filters) w)"

text \<open>\<open>self.run\<close> inside \<open>ResourceListCommand.run_and_print\<close>, resolved on the class of \<open>self\<close>.\<close>

definition list_run ::
  "command \<Rightarrow> ('s, 'x, 'j) collaborators \<Rightarrow> args \<Rightarrow> kwargs \<Rightarrow> 's world \<Rightarrow> ('x exn + resource_instance list) \<times> 's world" where
  "list_run self c a kwargs w =
     (if self = ContentPackResourceListCommand then ContentPackResourceListCommand_run c a kwargs w
      else ResourceListCommand_run c a kwargs w)"

definition ResourceListCommand_run_and_print ::
  "command \<Rightarrow> ('s, 'x, 'j) collaborators \<Rightarrow> args \<Rightarrow> kwargs \<Rightarrow> 's world \<Rightarrow> ('x exn + unit) \<times> 's world" where
  "ResourceListCommand_run_and_print self c a kwargs w =
     (case list_run self c a kwargs w of
        (Inl e, w1) \<Rightarrow> (Inl e, w1)
      | (Inr instances, w1) \<Rightarrow>
          (case do_print_output c
                  \<lparr>out_subject = Many instances, out_table = MultiColumnTable, out_attributes = attr a,
                   out_widths = width a, out_json = json a, out_attribute_display_order = None\<rparr> w1 of
             (Some e, w2) \<Rightarrow> (Inl e, w2)
           | (None, w2) \<Rightarrow> (Inr (), w2)))"

subsubsection \<open>Get\<close>

fun attribute_display_order :: "command \<Rightarrow> string list" where
  "attribute_display_order ContentPackResourceGetCommand = [''id'', ''pack'', ''name'', ''description'']"
| "attribute_display_order _ = [''id'', ''name'', ''description'']"

definition ResourceGetCommand_run ::
  "command \<Rightarrow> ('s, 'x, 'j) collaborators \<Rightarrow> args \<Rightarrow> kwargs \<Rightarrow> 's world \<Rightarrow> ('x exn + resource_instance) \<times> 's world" where
  "ResourceGetCommand_run self c a kwargs0 w =
     (let kwargs = add_auth_token_to_kwargs_from_cli a kwargs0;
          resource_id = getattr_pk a (pk_argument_name self)
      in get_resource self c resource_id kwargs w)"

text \<open>The \<open>except ResourceNotFoundError\<close> clause shared by Get and Delete.\<close>

definition except_ResourceNotFoundError ::
  "command \<Rightarrow> ('s, 'x, 'j) collaborators \<Rightarrow> args \<Rightarrow> 'x exn \<Rightarrow> 's world \<Rightarrow> ('x exn + unit) \<times> 's world" where
  "except_ResourceNotFoundError self c a e w =
     (case e of
        ResourceNotFoundError m \<Rightarrow>
          (let resource_id = getattr_pk a (pk_argument_name self)
           in (Inr (), print_not_found c resource_id w))
      | _ \<Rightarrow> (Inl e, w))"

definition ResourceGetCommand_run_and_print ::
  "command \<Rightarrow> ('s, 'x, 'j) collaborators \<Rightarrow> args \<Rightarrow> kwargs \<Rightarrow> 's world \<Rightarrow> ('x exn + unit) \<times> 's world" where
  "ResourceGetCommand_run_and_print self c a kwargs w =
     (case ResourceGetCommand_run self c a kwargs w of
        (Inl e, w1) \<Rightarrow> except_ResourceNotFoundError self c a e w1
      | (Inr i, w1) \<Rightarrow>
          (case do_print_output c
                  \<lparr>out_subject = One i, out_table = PropertyValueTable, out_attributes = attr a,
                   out_widths = None, out_json = json a,
                   out_attribute_display_order = Some (attribute_display_order self)\<rparr> w1 of
             (Some e, w2) \<Rightarrow> except_ResourceNotFoundError self c a e w2
           | (None, w2) \<Rightarrow> (Inr (), w2)))"

subsubsection \<open>Create\<close>

definition ResourceCreateCommand_run ::
  "('s, 'x, 'j) collaborators \<Rightarrow> args \<Rightarrow> kwargs \<Rightarrow> 's world \<Rightarrow> ('x exn + resource_instance) \<times> 's world" where
  "ResourceCreateCommand_run c a kwargs0 w0 =
     (let kwargs = add_auth_token_to_kwargs_from_cli a kwargs0;
          w = emit (IsFile (file_path a)) w0
      in if \<not> isfile c (file_path a) then (Inl (Exception (file_missing_message (file_path a))), w)
         else with_open c (file_path a)
                (\<lambda>w1. case read_instance c (file_path a) w1 of
                         (Inl e, w2) \<Rightarrow> (Inl e, w2)
                       | (Inr i, w2) \<Rightarrow> call (CallCreate i kwargs) (create c i kwargs) w2) w)"

definition ResourceCreateCommand_run_and_print ::
  "('s, 'x, 'j) collaborators \<Rightarrow> args \<Rightarrow> kwargs \<Rightarrow> 's world \<Rightarrow> ('x exn + unit) \<times> 's world" where
  "ResourceCreateCommand_run_and_print c a kwargs w =
     (case ResourceCreateCommand_run c a kwargs w of
        (Inl e, w1) \<Rightarrow> (Inl e, w1)
      | (Inr i, w1) \<Rightarrow>
          (case do_print_output c
                  \<lparr>out_subject = One i, out_table = PropertyValueTable, out_attributes = [''all''],
                   out_widths = None, out_json = json a, out_attribute_display_order = None\<rparr> w1 of
             (Some e, w2) \<Rightarrow> (Inl e, w2)
           | (None, w2) \<Rightarrow> (Inr (), w2)))"

subsubsection \<open>Update\<close>

text \<open>The reconciliation of the two ids, inside the block.\<close>

definition reconcile_id ::
  "('s, 'x, 'j) collaborators \<Rightarrow> resource_instance \<Rightarrow> resource_instance \<Rightarrow> 'x exn + resource_instance" where
  "reconcile_id c existing modified_instance =
     (if \<not> truthy (inst_id modified_instance) then Inr (modified_instance\<lparr>inst_id := inst_id existing\<rparr>)
      else if inst_id modified_instance \<noteq> inst_id existing
           then Inl (Exception (id_mismatch_message (get_display_name c)))
           else Inr modified_instance)"

definition ResourceUpdateCommand_run ::
  "command \<Rightarrow> ('s, 'x, 'j) collaborators \<Rightarrow> args \<Rightarrow> kwargs \<Rightarrow> 's world \<Rightarrow> ('x exn + resource_instance) \<times> 's world" where
  "ResourceUpdateCommand_run self c a kwargs0 w0 =
     (let kwargs = add_auth_token_to_kwargs_from_cli a kwargs0;
          w = emit (IsFile (file_path a)) w0
      in if \<not> isfile c (file_path a) then (Inl (Exception (file_missing_message (file_path a))), w)
         else
           (let resource_id = getattr_pk a (pk_argument_name self)
            in case get_resource self c resource_id kwargs w of
                 (Inl e, w1) \<Rightarrow> (Inl e, w1)
               | (Inr existing, w1) \<Rightarrow>
                   with_open c (file_path a)
                     (\<lambda>w2. case read_instance c (file_path a) w2 of
                              (Inl e, w3) \<Rightarrow> (Inl e, w3)
                            | (Inr modified_instance, w3) \<Rightarrow>
                                (case reconcile_id c existing modified_instance of
                                   Inl e \<Rightarrow> (Inl e, w3)
                                 | Inr m \<Rightarrow> call (CallUpdate m kwargs) (update c m kwargs) w3)) w1))"

definition ResourceUpdateCommand_run_and_print ::
  "command \<Rightarrow> ('s, 'x, 'j) collaborators \<Rightarrow> args \<Rightarrow> kwargs \<Rightarrow> 's world \<Rightarrow> ('x exn + unit) \<times> 's world" where
  "ResourceUpdateCommand_run_and_print self c a kwargs w =
     (case ResourceUpdateCommand_run self c a kwargs w of
        (Inl e, w1) \<Rightarrow> (Inl e, w1)
      | (Inr i, w1) \<Rightarrow>
          (case do_print_output c
                  \<lparr>out_subject = One i, out_table = PropertyValueTable, out_attributes = [''all''],
                   out_widths = None, out_json = json a, out_attribute_display_order = None\<rparr> w1 of
             (Some e, w2) \<Rightarrow> (Inl e, w2)
           | (None, w2) \<Rightarrow> (Inr (), w2)))"

subsubsection \<open>Delete\<close>

definition ResourceDeleteCommand_run ::
  "command \<Rightarrow> ('s, 'x, 'j) collaborators \<Rightarrow> args \<Rightarrow> kwargs \<Rightarrow> 's world \<Rightarrow> ('x exn + unit) \<times> 's world" where
  "ResourceDeleteCommand_run self c a kwargs0 w =
     (let kwargs = add_auth_token_to_kwargs_from_cli a kwargs0;
          resource_id = getattr_pk a (pk_argument_name self)
      in case get_resource self c resource_id kwargs w of
           (Inl e, w1) \<Rightarrow> (Inl e, w1)
         | (Inr i, w1) \<Rightarrow>
             (case call (CallDelete i kwargs) (delete c i kwargs) w1 of
                (Inl e, w2) \<Rightarrow> (Inl e, w2)
              | (Inr u, w2) \<Rightarrow> (Inr (), w2)))"

definition ResourceDeleteCommand_run_and_print ::
  "command \<Rightarrow> ('s, 'x, 'j) collaborators \<Rightarrow> args \<Rightarrow> kwargs \<Rightarrow> 's world \<Rightarrow> ('x exn + unit) \<times> 's world" where
  "ResourceDeleteCommand_run_and_print self c a kwargs w =
     (case ResourceDeleteCommand_run self c a kwargs w of
        (Inl e, w1) \<Rightarrow> except_ResourceNotFoundError self c a e w1
      | (Inr u, w1) \<Rightarrow> (Inr (), w1))"

subsection \<open>Reading a trace\<close>




subsection \<open>A small backend to run the commands on\<close>

text \<open>
  One resource, named \<open>alertA\<close> with id \<open>507f\<close>; the name lookup raises on \<open>boom\<close>, the id
  lookup raises on \<open>nonexistent\<close>; two files, of which \<open>other.json\<close> carries the id
  \<open>999\<close> and \<open>noid.json\<close> carries none. The backend state counts the calls.
\<close>

definition alertA :: resource_instance where
  "alertA = \<lparr>inst_id = Some ''507f'', inst_attrs = [(''name'', ''alertA'')]\<rparr>"

definition example_collaborators :: "(nat, unit, string) collaborators" where
  "example_collaborators =
    \<lparr>get_display_name = ''Rule'',
     deserialize = (\<lambda>d. Inr \<lparr>inst_id = (if d = ''id=999'' then Some ''999'' else None),
                               inst_attrs = [(''name'', ''x'')]\<rparr>),
     get_by_name = (\<lambda>n kw s. (if n = Some ''alertA'' then Inr (Some alertA)
                              else if n = Some ''boom'' then Inl (Foreign ()) else Inr None, Suc s)),
     get_by_id = (\<lambda>n kw s. (if n = Some ''507f'' then Inr (Some alertA)
                            else if n = Some ''nonexistent'' then Inl (Foreign ()) else Inr None, Suc s)),
     get_by_ref_or_id = (\<lambda>n kw s. (if n = Some ''core.alertA'' then Inr (Some alertA) else Inr None, Suc s)),
     get_all = (\<lambda>kw s. (Inr [alertA], Suc s)),
     create = (\<lambda>i kw s. (Inr (i\<lparr>inst_id := Some ''new''\<rparr>), Suc s)),
     update = (\<lambda>i kw s. (Inr i, Suc s)),
     delete = (\<lambda>i kw s. (Inr (), Suc s)),
     isfile = (\<lambda>p. p = ''noid.json'' \<or> p = ''other.json''),
     file_open = (\<lambda>p. None),
     file_read = (\<lambda>p. Inr (if p = ''other.json'' then ''id=999'' else ''name=x'')),
     json_loads = (\<lambda>t. Inr t),
     print_output = (\<lambda>r. None)\<rparr>"

definition example_args :: args where
  "example_args =
    \<lparr>token = Some ''tok'', json = False, name_or_id = Some ''alertA'', ref_or_id = Some ''core.alertA'',
     file_path = ''noid.json'', attr = [''all''], width = None, pack = Some ''core''\<rparr>"

definition fresh_world :: "nat world" where
  "fresh_world = \<lparr>backend = 0, trace = []\<rparr>"


subsection \<open>Identifier resolution\<close>




text \<open>
  Claim C2. Resolution by name or id asks the manager for the name first. An error of the
  name lookup propagates unchanged, and an instance found by name is returned, in both
  cases without an id lookup. When the name lookup yields nothing the id lookup is made:
  an instance it finds is returned, and when it yields nothing or raises (the error is
  discarded) the resolution raises \<open>ResourceNotFoundError\<close> with a message that carries
  the identifier.
\<close>

theorem get_resource_by_name_or_id_policy:
  assumes "get_by_name c ident kwargs (backend w) = (r1, s1)"
    and "get_by_id c ident kwargs s1 = (r2, s2)"
    and "w1 = \<lparr>backend = s1, trace = trace w @ [CallGetByName ident kwargs]\<rparr>"
    and "w2 = \<lparr>backend = s2, trace = trace w @ [CallGetByName ident kwargs, CallGetById ident kwargs]\<rparr>"
    and "msg = ''Resource with id or name '' @ [CHR 0x22] @ fmt_s ident @ [CHR 0x22] @ '' doesn't exist.''"
  shows "(\<forall>e. r1 = Inl e \<longrightarrow> get_resource_by_name_or_id c ident kwargs w = (Inl e, w1)) \<and>
         (\<forall>i. r1 = Inr (Some i) \<longrightarrow> get_resource_by_name_or_id c ident kwargs w = (Inr i, w1)) \<and>
         (\<forall>i. r1 = Inr None \<and> r2 = Inr (Some i) \<longrightarrow>
              get_resource_by_name_or_id c ident kwargs w = (Inr i, w2)) \<and>
         (r1 = Inr None \<and> (r2 = Inr None \<or> (\<exists>e. r2 = Inl e)) \<longrightarrow>
            get_resource_by_name_or_id c ident kwargs w = (Inl (ResourceNotFoundError msg), w2))"
  using assms
  by (auto simp: get_resource_by_name_or_id_def call_def emit_def name_or_id_message_def)

theorem get_resource_by_name_or_id_policy_witness:
  "get_resource_by_name_or_id example_collaborators (Some ''boom'') [] fresh_world =
     (Inl (Foreign ()), \<lparr>backend = 1, trace = [CallGetByName (Some ''boom'') []]\<rparr>) \<and>
   get_resource_by_name_or_id example_collaborators (Some ''alertA'') [] fresh_world =
     (Inr alertA, \<lparr>backend = 1, trace = [CallGetByName (Some ''alertA'') []]\<rparr>) \<and>
   get_resource_by_name_or_id example_collaborators (Some ''507f'') [] fresh_world =
     (Inr alertA, \<lparr>backend = 2, trace = [CallGetByName (Some ''507f'') [], CallGetById (Some ''507f'') []]\<rparr>) \<and>
   get_resource_by_name_or_id example_collaborators (Some ''nonexistent'') [] fresh_world =
     (Inl (ResourceNotFoundError (''Resource with id or name '' @ [CHR 0x22] @ ''nonexistent'' @ [CHR 0x22] @ '' doesn't exist.'')),
      \<lparr>backend = 2, trace = [CallGetByName (Some ''nonexistent'') [], CallGetById (Some ''nonexistent'') []]\<rparr>) \<and>
   get_resource_by_name_or_id example_collaborators (Some ''zzz'') [] fresh_world =
     (Inl (ResourceNotFoundError (''Resource with id or name '' @ [CHR 0x22] @ ''zzz'' @ [CHR 0x22] @ '' doesn't exist.'')),
      \<lparr>backend = 2, trace = [CallGetByName (Some ''zzz'') [], CallGetById (Some ''zzz'') []]\<rparr>)"
proof -
  have n: "get_by_name example_collaborators (Some ''boom'') [] (backend fresh_world) = (Inl (Foreign ()), 1)"
    "get_by_name example_collaborators (Some ''alertA'') [] (backend fresh_world) = (Inr (Some alertA), 1)"
    "get_by_name example_collaborators (Some ''507f'') [] (backend fresh_world) = (Inr None, 1)"
    "get_by_name example_collaborators (Some ''nonexistent'') [] (backend fresh_world) = (Inr None, 1)"
    "get_by_name example_collaborators (Some ''zzz'') [] (backend fresh_world) = (Inr None, 1)"
    by (simp_all add: example_collaborators_def fresh_world_def)
  have i: "get_by_id example_collaborators (Some ''boom'') [] 1 = (Inr None, 2)"
    "get_by_id example_collaborators (Some ''alertA'') [] 1 = (Inr None, 2)"
    "get_by_id example_collaborators (Some ''507f'') [] 1 = (Inr (Some alertA), 2)"
    "get_by_id example_collaborators (Some ''nonexistent'') [] 1 = (Inl (Foreign ()), 2)"
    "get_by_id example_collaborators (Some ''zzz'') [] 1 = (Inr None, 2)"
    by (simp_all add: example_collaborators_def)
  show ?thesis
    using get_resource_by_name_or_id_policy [OF n(1) i(1) refl refl refl]
      get_resource_by_name_or_id_policy [OF n(2) i(2) refl refl refl]
      get_resource_by_name_or_id_policy [OF n(3) i(3) refl refl refl]
      get_resource_by_name_or_id_policy [OF n(4) i(4) refl refl refl]
      get_resource_by_name_or_id_policy [OF n(5) i(5) refl refl refl]
    by (simp add: fresh_world_def)
qed

subsection \<open>Update\<close>




text \<open>
  Claim C5. When the instance read from the file carries no id (none, or an empty one),
  the update copies the id of the resolved instance onto it and calls the manager's
  update with that instance, whose id is the resolved instance's id and whose other
  attributes are the file's; the result of the command is the result of that call.
\<close>

theorem update_copies_id:
  assumes "isfile c (file_path a)"
    and "kwargs = add_auth_token_to_kwargs_from_cli a kwargs0"
    and "get_resource self c (getattr_pk a (pk_argument_name self)) kwargs (emit (IsFile (file_path a)) w) =
           (Inr existing, w1)"
    and "file_open c (file_path a) = None"
    and "file_read c (file_path a) = Inr content"
    and "json_loads c content = Inr data"
    and "deserialize c data = Inr m"
    and "\<not> truthy (inst_id m)"
    and "update c (m\<lparr>inst_id := inst_id existing\<rparr>) kwargs (backend w1) = (r, s)"
  shows "ResourceUpdateCommand_run self c a kwargs0 w =
           (r, \<lparr>backend = s,
                trace = trace w1 @ [FileOpen (file_path a), FileRead (file_path a),
                                    CallUpdate (m\<lparr>inst_id := inst_id existing\<rparr>) kwargs,
                                    FileClose (file_path a)]\<rparr>)
         \<and> inst_id (m\<lparr>inst_id := inst_id existing\<rparr>) = inst_id existing
         \<and> inst_attrs (m\<lparr>inst_id := inst_id existing\<rparr>) = inst_attrs m"
  using assms
  by (simp add: ResourceUpdateCommand_run_def Let_def with_open_def read_instance_def
        reconcile_id_def emit_def call_def)

theorem update_copies_id_witness:
  "ResourceUpdateCommand_run ResourceUpdateCommand example_collaborators example_args [] fresh_world =
     (Inr \<lparr>inst_id = Some ''507f'', inst_attrs = [(''name'', ''x'')]\<rparr>,
      \<lparr>backend = 2,
       trace = [IsFile ''noid.json'', CallGetByName (Some ''alertA'') [(''token'', Some ''tok'')],
                FileOpen ''noid.json'', FileRead ''noid.json'',
                CallUpdate \<lparr>inst_id = Some ''507f'', inst_attrs = [(''name'', ''x'')]\<rparr> [(''token'', Some ''tok'')],
                FileClose ''noid.json'']\<rparr>)"
proof -
  let ?a = "example_args"
  let ?m = "\<lparr>inst_id = None, inst_attrs = [(''name'', ''x'')]\<rparr>"
  let ?w1 = "\<lparr>backend = 1::nat,
              trace = [IsFile ''noid.json'', CallGetByName (Some ''alertA'') [(''token'', Some ''tok'')]]\<rparr>"
  have g: "get_resource ResourceUpdateCommand example_collaborators
             (getattr_pk ?a (pk_argument_name ResourceUpdateCommand)) [(''token'', Some ''tok'')]
             (emit (IsFile (file_path ?a)) fresh_world) = (Inr alertA, ?w1)"
    by (simp add: example_collaborators_def example_args_def fresh_world_def getattr_pk_def
          get_resource_by_name_or_id_def emit_def call_def)
  have k: "[(''token'', Some ''tok'')] = add_auth_token_to_kwargs_from_cli ?a []"
    by (simp add: add_auth_token_to_kwargs_from_cli_def example_args_def)
  have u: "update example_collaborators (?m\<lparr>inst_id := inst_id alertA\<rparr>) [(''token'', Some ''tok'')] (backend ?w1) =
             (Inr (?m\<lparr>inst_id := inst_id alertA\<rparr>), 2)"
    by (simp add: example_collaborators_def)
  have "ResourceUpdateCommand_run ResourceUpdateCommand example_collaborators ?a [] fresh_world =
           (Inr (?m\<lparr>inst_id := inst_id alertA\<rparr>), \<lparr>backend = 2,
                trace = trace ?w1 @ [FileOpen (file_path ?a), FileRead (file_path ?a),
                                    CallUpdate (?m\<lparr>inst_id := inst_id alertA\<rparr>) [(''token'', Some ''tok'')],
                                    FileClose (file_path ?a)]\<rparr>)"
    by (rule update_copies_id [OF _ k g _ _ _ _ _ u, where content = "''name=x''" and data = "''name=x''",
            THEN conjunct1])
       (simp_all add: example_collaborators_def example_args_def)
  then show ?thesis
    by (simp add: example_args_def alertA_def)
qed

subsection \<open>Not found\<close>

text \<open>
  Claim C4. In the Get and the Delete commands (and their pack-scoped variants)
  \<open>run_and_print\<close> catches a \<open>ResourceNotFoundError\<close> raised by \<open>run\<close>: it returns
  normally, having printed the display name of the resource type, the identifier from the
  command line in double quotes, and \<open>is not found.\<close> with a newline. In particular the
  deletion of an identifier that neither the name lookup nor the id lookup finds (the id
  lookup may also raise) prints that message and ends without an error, and the manager's
  delete is not called.
\<close>

theorem not_found_is_printed:
  assumes "ident = getattr_pk a (pk_argument_name self)"
    and "msg = get_display_name c @ '' '' @ [CHR 0x22] @ fmt_s ident @ [CHR 0x22] @ '' is not found.'' @ [CHR 0x0A]"
    and "kw = add_auth_token_to_kwargs_from_cli a kwargs"
  shows "(\<forall>m w1. ResourceGetCommand_run self c a kwargs w = (Inl (ResourceNotFoundError m), w1) \<longrightarrow>
            ResourceGetCommand_run_and_print self c a kwargs w =
              (Inr (), w1\<lparr>trace := trace w1 @ [Print msg]\<rparr>)) \<and>
         (\<forall>m w1. ResourceDeleteCommand_run self c a kwargs w = (Inl (ResourceNotFoundError m), w1) \<longrightarrow>
            ResourceDeleteCommand_run_and_print self c a kwargs w =
              (Inr (), w1\<lparr>trace := trace w1 @ [Print msg]\<rparr>)) \<and>
         (\<forall>s1 r2 s2. (self = ResourceDeleteCommand \<or> self = ContentPackResourceDeleteCommand) \<and>
              get_by_name c ident kw (backend w) = (Inr None, s1) \<and>
              get_by_id c ident kw s1 = (r2, s2) \<and> (r2 = Inr None \<or> (\<exists>e. r2 = Inl e)) \<longrightarrow>
            ResourceDeleteCommand_run_and_print self c a kwargs w =
              (Inr (), \<lparr>backend = s2,
                        trace = trace w @ [CallGetByName ident kw, CallGetById ident kw, Print msg]\<rparr>))"
proof (intro conjI allI impI)
  fix m w1
  assume "ResourceGetCommand_run self c a kwargs w = (Inl (ResourceNotFoundError m), w1)"
  then show "ResourceGetCommand_run_and_print self c a kwargs w = (Inr (), w1\<lparr>trace := trace w1 @ [Print msg]\<rparr>)"
    using assms
    by (simp add: ResourceGetCommand_run_and_print_def except_ResourceNotFoundError_def
          print_not_found_def not_found_message_def emit_def)
next
  fix m w1
  assume "ResourceDeleteCommand_run self c a kwargs w = (Inl (ResourceNotFoundError m), w1)"
  then show "ResourceDeleteCommand_run_and_print self c a kwargs w = (Inr (), w1\<lparr>trace := trace w1 @ [Print msg]\<rparr>)"
    using assms
    by (simp add: ResourceDeleteCommand_run_and_print_def except_ResourceNotFoundError_def
          print_not_found_def not_found_message_def emit_def)
next
  fix s1 r2 s2
  assume "(self = ResourceDeleteCommand \<or> self = ContentPackResourceDeleteCommand) \<and>
          get_by_name c ident kw (backend w) = (Inr None, s1) \<and>
          get_by_id c ident kw s1 = (r2, s2) \<and> (r2 = Inr None \<or> (\<exists>e. r2 = Inl e))"
  then show "ResourceDeleteCommand_run_and_print self c a kwargs w =
              (Inr (), \<lparr>backend = s2,
                        trace = trace w @ [CallGetByName ident kw, CallGetById ident kw, Print msg]\<rparr>)"
    using assms
    by (auto simp: ResourceDeleteCommand_run_and_print_def ResourceDeleteCommand_run_def
          except_ResourceNotFoundError_def print_not_found_def not_found_message_def emit_def
          get_resource_by_name_or_id_def call_def Let_def)
qed

theorem not_found_is_printed_witness:
  "ResourceGetCommand_run_and_print ResourceGetCommand example_collaborators
      (example_args\<lparr>name_or_id := Some ''zzz''\<rparr>) [] fresh_world =
     (Inr (), \<lparr>backend = 2,
        trace = [CallGetByName (Some ''zzz'') [(''token'', Some ''tok'')],
                 CallGetById (Some ''zzz'') [(''token'', Some ''tok'')],
                 Print (''Rule '' @ [CHR 0x22] @ ''zzz'' @ [CHR 0x22] @ '' is not found.'' @ [CHR 0x0A])]\<rparr>) \<and>
   ResourceDeleteCommand_run_and_print ContentPackResourceDeleteCommand example_collaborators
      (example_args\<lparr>ref_or_id := Some ''zzz''\<rparr>) [] fresh_world =
     (Inr (), \<lparr>backend = 2,
        trace = [CallGetByName (Some ''zzz'') [(''token'', Some ''tok'')],
                 CallGetById (Some ''zzz'') [(''token'', Some ''tok'')],
                 Print (''Rule '' @ [CHR 0x22] @ ''zzz'' @ [CHR 0x22] @ '' is not found.'' @ [CHR 0x0A])]\<rparr>) \<and>
   ResourceDeleteCommand_run_and_print ResourceDeleteCommand example_collaborators
      (example_args\<lparr>name_or_id := Some ''nonexistent''\<rparr>) [] fresh_world =
     (Inr (), \<lparr>backend = 2,
        trace = [CallGetByName (Some ''nonexistent'') [(''token'', Some ''tok'')],
                 CallGetById (Some ''nonexistent'') [(''token'', Some ''tok'')],
                 Print (''Rule '' @ [CHR 0x22] @ ''nonexistent'' @ [CHR 0x22] @ '' is not found.'' @ [CHR 0x0A])]\<rparr>)"
proof -
  let ?kw = "[(''token'', Some ''tok'')]"
  let ?g = "example_args\<lparr>name_or_id := Some ''zzz''\<rparr>"
  let ?d = "example_args\<lparr>ref_or_id := Some ''zzz''\<rparr>"
  let ?n = "example_args\<lparr>name_or_id := Some ''nonexistent''\<rparr>"
  let ?w1 = "\<lparr>backend = 2::nat, trace = [CallGetByName (Some ''zzz'') ?kw, CallGetById (Some ''zzz'') ?kw]\<rparr>"
  have rg: "ResourceGetCommand_run ResourceGetCommand example_collaborators ?g [] fresh_world =
              (Inl (ResourceNotFoundError (name_or_id_message (Some ''zzz''))), ?w1)"
    by (simp add: ResourceGetCommand_run_def Let_def getattr_pk_def example_args_def
          add_auth_token_to_kwargs_from_cli_def get_resource_by_name_or_id_def call_def emit_def
          example_collaborators_def fresh_world_def)
  have rd: "ResourceDeleteCommand_run ContentPackResourceDeleteCommand example_collaborators ?d [] fresh_world =
              (Inl (ResourceNotFoundError (name_or_id_message (Some ''zzz''))), ?w1)"
    by (simp add: ResourceDeleteCommand_run_def Let_def getattr_pk_def example_args_def
          add_auth_token_to_kwargs_from_cli_def get_resource_by_name_or_id_def call_def emit_def
          example_collaborators_def fresh_world_def)
  have kg: "?kw = add_auth_token_to_kwargs_from_cli ?g []" "?kw = add_auth_token_to_kwargs_from_cli ?d []"
    "?kw = add_auth_token_to_kwargs_from_cli ?n []"
    by (simp_all add: add_auth_token_to_kwargs_from_cli_def example_args_def)
  have ig: "Some ''zzz'' = getattr_pk ?g (pk_argument_name ResourceGetCommand)"
    "Some ''zzz'' = getattr_pk ?d (pk_argument_name ContentPackResourceDeleteCommand)"
    "Some ''nonexistent'' = getattr_pk ?n (pk_argument_name ResourceDeleteCommand)"
    by (simp_all add: getattr_pk_def example_args_def)
  have nn: "(ResourceDeleteCommand = ResourceDeleteCommand \<or> ResourceDeleteCommand = ContentPackResourceDeleteCommand) \<and>
      get_by_name example_collaborators (Some ''nonexistent'') ?kw (backend fresh_world) = (Inr None, 1) \<and>
      get_by_id example_collaborators (Some ''nonexistent'') ?kw 1 = (Inl (Foreign ()), 2) \<and>
      (Inl (Foreign ()) = (Inr None :: unit exn + resource_instance option) \<or>
       (\<exists>e. (Inl (Foreign ()) :: unit exn + resource_instance option) = Inl e))"
    by (simp add: example_collaborators_def fresh_world_def)
  show ?thesis
    using not_found_is_printed [OF ig(1) refl kg(1), of example_collaborators fresh_world,
            THEN conjunct1, rule_format, OF rg]
      not_found_is_printed [OF ig(2) refl kg(2), of example_collaborators fresh_world,
            THEN conjunct2, THEN conjunct1, rule_format, OF rd]
      not_found_is_printed [OF ig(3) refl kg(3), of example_collaborators fresh_world,
            THEN conjunct2, THEN conjunct2, rule_format, OF nn]
    by (simp add: example_collaborators_def fresh_world_def)
qed

subsection \<open>The pack-scoped List\<close>

text \<open>
  Claim C7, at a concrete input: a command line with the token \<open>tok\<close> and the pack
  \<open>core\<close>. The plain List passes the token to the manager's \<open>get_all\<close>; the pack-scoped
  List, under the same decorator, builds its filters from the pack alone and calls
  \<open>get_all\<close> without the token.
\<close>

theorem pack_list_drops_token:
  "ResourceListCommand_run example_collaborators example_args [] fresh_world =
     (Inr [alertA], \<lparr>backend = 1, trace = [CallGetAll [(''token'', Some ''tok'')]]\<rparr>)
   \<and> ContentPackResourceListCommand_run example_collaborators example_args [] fresh_world =
     (Inr [alertA], \<lparr>backend = 1, trace = [CallGetAll [(''pack'', Some ''core'')]]\<rparr>)"
  by (simp add: ResourceListCommand_run_def ContentPackResourceListCommand_run_def Let_def emit_def
        call_def example_collaborators_def example_args_def fresh_world_def
        add_auth_token_to_kwargs_from_cli_def)

subsection \<open>Files and backend calls\<close>



section \<open>Key escaping (st2common/util/mongoescape.py)\<close>

subsection \<open>Keys and their translation\<close>

text \<open>
  A key is a Python string, here the list of its code points: \<open>.\<close> is 46, \<open>$\<close> is 36, and
  their substitutes, the fullwidth full stop U+FF0E and the fullwidth dollar sign U+FF04,
  are 65294 and 65284.
\<close>

type_synonym key = "nat list"

definition UNESCAPED :: "nat list" where
  "UNESCAPED = [46, 36]"

definition ESCAPED :: "nat list" where
  "ESCAPED = [65294, 65284]"

definition ESCAPE_TRANSLATION :: "(nat \<times> nat) list" where
  "ESCAPE_TRANSLATION = zip UNESCAPED ESCAPED"

definition UNESCAPE_TRANSLATION :: "(nat \<times> nat) list" where
  "UNESCAPE_TRANSLATION = zip ESCAPED UNESCAPED"

text \<open>\<open>s.replace(old, new)\<close> for one-character \<open>old\<close> and \<open>new\<close>, as all of them are here.\<close>

definition replace :: "nat \<Rightarrow> nat \<Rightarrow> key \<Rightarrow> key" where
  "replace old new s = map (\<lambda>ch. if ch = old then new else ch) s"

text \<open>The inner \<open>for\<close> loop: every pair of the translation is applied in turn.\<close>

definition translate_key :: "(nat \<times> nat) list \<Rightarrow> key \<Rightarrow> key" where
  "translate_key translation oldkey = fold (\<lambda>(t_k, t_v) newkey. replace t_k t_v newkey) translation oldkey"

subsection \<open>Documents and objects\<close>

text \<open>
  A document is a tree of mappings, sequences and scalars; a mapping lists its entries in
  iteration order.
\<close>

datatype 'a doc = Scalar 'a | Seq "'a doc list" | Dict "(key \<times> 'a doc) list"

text \<open>
  The function mutates dict objects in place, so the dicts live in a store: a value is a
  scalar, a list of values, or the address of a dict, and the heap holds the entries of
  every dict, at its address.
\<close>

datatype 'a pyval = Atom 'a | PyList "'a pyval list" | DictRef nat

type_synonym 'a pydict = "(key \<times> 'a pyval) list"

type_synonym 'a heap = "'a pydict list"

text \<open>
  \<open>KeyError\<close> is what \<open>del d[k]\<close> raises on a missing key. \<open>Dangling\<close> is an address
  with no dict behind it, which no Python state has; the model stops there.
\<close>

datatype error = KeyError key | Dangling nat

text \<open>\<open>d[k] = v\<close> and \<open>del d[k]\<close> on the dict at address \<open>a\<close>.\<close>

definition setitem :: "nat \<Rightarrow> key \<Rightarrow> 'a pyval \<Rightarrow> 'a heap \<Rightarrow> 'a heap" where
  "setitem a k v h = h[a := AList.update k v (h ! a)]"

definition delitem :: "nat \<Rightarrow> key \<Rightarrow> 'a heap \<Rightarrow> error + 'a heap" where
  "delitem a k h =
     (if k \<in> fst ` set (h ! a) then Inr (h[a := AList.delete k (h ! a)]) else Inl (KeyError k))"

text \<open>\<open>[(k, v, d) for k, v in six.iteritems(d)]\<close> for the dict \<open>d\<close> at address \<open>a\<close>.\<close>

definition work_items_of :: "nat \<Rightarrow> 'a heap \<Rightarrow> (key \<times> 'a pyval \<times> nat) list" where
  "work_items_of a h = map (\<lambda>(k, v). (k, v, a)) (h ! a)"

subsection \<open>The traversal\<close>

text \<open>
  The \<open>while\<close> loop of \<open>_translate_chars\<close>. A work item is \<open>(oldkey, value, work_field)\<close>,
  the last being the address of the dict the entry belongs to. The loop need not end (a
  dict may contain itself), so it is a partial function: \<open>None\<close> is no result.
\<close>

partial_function (option) work_loop ::
  "(nat \<times> nat) list \<Rightarrow> (key \<times> 'a pyval \<times> nat) list \<Rightarrow> 'a heap \<Rightarrow> (error + 'a heap) option" where
  "work_loop translation work_items h =
     (case work_items of
        [] \<Rightarrow> Some (Inr h)
      | (oldkey, value, work_field) # rest \<Rightarrow>
          (if work_field \<ge> length h then Some (Inl (Dangling work_field))
           else
             (let newkey = translate_key translation oldkey in
              case (if newkey \<noteq> oldkey
                    then delitem work_field oldkey (setitem work_field newkey value h)
                    else Inr h) of
                Inl e \<Rightarrow> Some (Inl e)
              | Inr h1 \<Rightarrow>
                  (case value of
                     DictRef a \<Rightarrow>
                       (if a \<ge> length h1 then Some (Inl (Dangling a))
                        else work_loop translation (rest @ work_items_of a h1) h1)
                   | _ \<Rightarrow> work_loop translation rest h1))))"

definition translate_chars ::
  "'a pyval \<Rightarrow> (nat \<times> nat) list \<Rightarrow> 'a heap \<Rightarrow> (error + 'a pyval \<times> 'a heap) option" where
  "translate_chars field translation h =
     (case field of
        DictRef a \<Rightarrow>
          (if a \<ge> length h then Some (Inl (Dangling a))
           else (case work_loop translation (work_items_of a h) h of
                   None \<Rightarrow> None
                 | Some (Inl e) \<Rightarrow> Some (Inl e)
                 | Some (Inr h') \<Rightarrow> Some (Inr (field, h'))))
      | _ \<Rightarrow> Some (Inr (field, h)))"

definition escape_chars :: "'a pyval \<Rightarrow> 'a heap \<Rightarrow> (error + 'a pyval \<times> 'a heap) option" where
  "escape_chars field h = translate_chars field ESCAPE_TRANSLATION h"

definition unescape_chars :: "'a pyval \<Rightarrow> 'a heap \<Rightarrow> (error + 'a pyval \<times> 'a heap) option" where
  "unescape_chars field h = translate_chars field UNESCAPE_TRANSLATION h"

subsection \<open>Documents in and out of the store\<close>

text \<open>A document is built in the store bottom up, every mapping as a dict of its own.\<close>

fun store :: "'a doc \<Rightarrow> 'a heap \<Rightarrow> 'a pyval \<times> 'a heap"
  and store_list :: "'a doc list \<Rightarrow> 'a heap \<Rightarrow> 'a pyval list \<times> 'a heap"
  and store_items :: "(key \<times> 'a doc) list \<Rightarrow> 'a heap \<Rightarrow> 'a pydict \<times> 'a heap" where
  "store (Scalar x) h = (Atom x, h)"
| "store (Seq ds) h = (case store_list ds h of (vs, h1) \<Rightarrow> (PyList vs, h1))"
| "store (Dict kvs) h = (case store_items kvs h of (items, h1) \<Rightarrow> (DictRef (length h1), h1 @ [items]))"
| "store_list [] h = ([], h)"
| "store_list (d # ds) h =
     (case store d h of (v, h1) \<Rightarrow> case store_list ds h1 of (vs, h2) \<Rightarrow> (v # vs, h2))"
| "store_items [] h = ([], h)"
| "store_items ((k, d) # kvs) h =
     (case store d h of (v, h1) \<Rightarrow> case store_items kvs h1 of (items, h2) \<Rightarrow> ((k, v) # items, h2))"

text \<open>
  Reading a value back as a document, through at most \<open>n\<close> dicts on any path; \<open>None\<close>
  when the nesting goes deeper.
\<close>

fun load :: "nat \<Rightarrow> 'a heap \<Rightarrow> 'a pyval \<Rightarrow> 'a doc option"
  and load_list :: "nat \<Rightarrow> 'a heap \<Rightarrow> 'a pyval list \<Rightarrow> 'a doc list option"
  and load_items :: "nat \<Rightarrow> 'a heap \<Rightarrow> 'a pydict \<Rightarrow> (key \<times> 'a doc) list option" where
  "load n h (Atom x) = Some (Scalar x)"
| "load n h (PyList vs) = map_option Seq (load_list n h vs)"
| "load 0 h (DictRef a) = None"
| "load (Suc n) h (DictRef a) = (if a < length h then map_option Dict (load_items n h (h ! a)) else None)"
| "load_list n h [] = Some []"
| "load_list n h (v # vs) =
     (case load n h v of None \<Rightarrow> None
      | Some d \<Rightarrow> (case load_list n h vs of None \<Rightarrow> None | Some ds \<Rightarrow> Some (d # ds)))"
| "load_items n h [] = Some []"
| "load_items n h ((k, v) # kvs) =
     (case load n h v of None \<Rightarrow> None
      | Some d \<Rightarrow> (case load_items n h kvs of None \<Rightarrow> None | Some ds \<Rightarrow> Some ((k, d) # ds)))"

text \<open>
  A function on objects as a function on documents: the document is built in an empty
  store, the function runs on it, and its result is read back. A tree over the dicts of
  the store is no deeper than the store is large.
\<close>

definition on_document ::
  "('a pyval \<Rightarrow> 'a heap \<Rightarrow> (error + 'a pyval \<times> 'a heap) option) \<Rightarrow> 'a doc \<Rightarrow> (error + 'a doc) option" where
  "on_document f d =
     (case store d [] of (field, h) \<Rightarrow>
        (case f field h of
           None \<Rightarrow> None
         | Some (Inl e) \<Rightarrow> Some (Inl e)
         | Some (Inr (r, h')) \<Rightarrow> map_option Inr (load (length h') h' r)))"

subsection \<open>What the traversal computes\<close>

text \<open>
  One work item on the entries of its dict: the entry is stored under the new key and the
  old key is deleted, when the two differ.
\<close>

definition rename_step :: "(nat \<times> nat) list \<Rightarrow> key \<times> 'v \<Rightarrow> (key \<times> 'v) list \<Rightarrow> (key \<times> 'v) list" where
  "rename_step translation item d =
     (let newkey = translate_key translation (fst item)
      in if newkey \<noteq> fst item then AList.delete (fst item) (AList.update newkey (snd item) d) else d)"

text \<open>All the work items of one dict, in the order of the snapshot taken of it.\<close>

definition rename_items :: "(nat \<times> nat) list \<Rightarrow> (key \<times> 'v) list \<Rightarrow> (key \<times> 'v) list" where
  "rename_items translation items = fold (rename_step translation) items items"

text \<open>The document the traversal leaves behind, by recursion on the document.\<close>

fun translated :: "(nat \<times> nat) list \<Rightarrow> 'a doc \<Rightarrow> 'a doc" where
  "translated translation (Dict kvs) =
     Dict (rename_items translation (map (\<lambda>(k, v). (k, translated translation v)) kvs))"
| "translated translation (Seq ds) = Seq ds"
| "translated translation (Scalar x) = Scalar x"

text \<open>A document whose mappings have no repeated key, at any depth.\<close>

fun wf_doc :: "'a doc \<Rightarrow> bool" where
  "wf_doc (Scalar x) = True"
| "wf_doc (Seq ds) = list_all wf_doc ds"
| "wf_doc (Dict kvs) = (distinct (map fst kvs) \<and> list_all (\<lambda>(k, v). wf_doc v) kvs)"

text \<open>The number of dicts a document takes in the store, and its depth in dicts.\<close>

fun ndicts :: "'a doc \<Rightarrow> nat" where
  "ndicts (Scalar x) = 0"
| "ndicts (Seq ds) = sum_list (map ndicts ds)"
| "ndicts (Dict kvs) = Suc (sum_list (map (\<lambda>(k, v). ndicts v) kvs))"

fun depth :: "'a doc \<Rightarrow> nat" where
  "depth (Scalar x) = 0"
| "depth (Seq ds) = fold max (map depth ds) 0"
| "depth (Dict kvs) = Suc (fold max (map (\<lambda>(k, v). depth v) kvs) 0)"

fun weight :: "'a doc \<Rightarrow> nat" where
  "weight (Dict kvs) = Suc (sum_list (map (\<lambda>(k, v). weight v) kvs))"
| "weight (Seq ds) = 1"
| "weight (Scalar x) = 1"

text \<open>
  A value of the store that holds a document as a tree: every dict below it is reached
  once, and the set is the addresses of these dicts.
\<close>

inductive repr :: "'a heap \<Rightarrow> 'a pyval \<Rightarrow> 'a doc \<Rightarrow> nat set \<Rightarrow> bool"
  and reprs :: "'a heap \<Rightarrow> 'a pyval list \<Rightarrow> 'a doc list \<Rightarrow> nat set \<Rightarrow> bool" where
  repr_Atom: "repr h (Atom x) (Scalar x) {}"
| repr_List: "reprs h vs ds A \<Longrightarrow> repr h (PyList vs) (Seq ds) A"
| repr_Dict: "a < length h \<Longrightarrow> map fst (h ! a) = map fst kvs \<Longrightarrow> distinct (map fst kvs) \<Longrightarrow>
     reprs h (map snd (h ! a)) (map snd kvs) A \<Longrightarrow> a \<notin> A \<Longrightarrow>
     repr h (DictRef a) (Dict kvs) (insert a A)"
| reprs_Nil: "reprs h [] [] {}"
| reprs_Cons: "repr h v d A \<Longrightarrow> reprs h vs ds B \<Longrightarrow> A \<inter> B = {} \<Longrightarrow>
     reprs h (v # vs) (d # ds) (A \<union> B)"

text \<open>A value of the store that reads as a document, shared or not.\<close>

inductive represents :: "'a heap \<Rightarrow> 'a pyval \<Rightarrow> 'a doc \<Rightarrow> bool" where
  represents_Atom: "represents h (Atom x) (Scalar x)"
| represents_List: "list_all2 (represents h) vs ds \<Longrightarrow> represents h (PyList vs) (Seq ds)"
| represents_Dict: "a < length h \<Longrightarrow> list_all2 (rel_prod (=) (represents h)) (h ! a) kvs \<Longrightarrow>
     represents h (DictRef a) (Dict kvs)"

subsection \<open>Trees in the store\<close>

lemma list_all2_rel_prod_eq:
  "list_all2 (rel_prod (=) R) xs ys \<longleftrightarrow> map fst xs = map fst ys \<and> list_all2 R (map snd xs) (map snd ys)"
proof (induction xs arbitrary: ys)
  case Nil
  then show ?case by auto
next
  case (Cons x xs)
  then show ?case by (cases ys) (auto simp: rel_prod_sel)
qed

inductive_cases repr_AtomE: "repr h (Atom x) d A"

inductive_cases repr_ListE: "repr h (PyList vs) d A"

inductive_cases repr_DictE: "repr h (DictRef a) d A"

inductive_cases reprs_NilE: "reprs h [] ds A"

inductive_cases reprs_ConsE: "reprs h (v # vs) ds A"

lemma reprs_length: "reprs h vs ds A \<Longrightarrow> length vs = length ds"
  by (induction vs arbitrary: ds A) (auto elim: reprs.cases)

lemma repr_frame_both:
  "(repr h v d A \<longrightarrow> (\<forall>h'. length h \<le> length h' \<and> (\<forall>a\<in>A. h' ! a = h ! a) \<longrightarrow> repr h' v d A)) \<and>
   (reprs h vs ds B \<longrightarrow> (\<forall>h'. length h \<le> length h' \<and> (\<forall>a\<in>B. h' ! a = h ! a) \<longrightarrow> reprs h' vs ds B))"
proof (induction rule: repr_reprs.induct)
  case (repr_Dict a h kvs A)
  show ?case
  proof (intro allI impI)
    fix h' assume h': "length h \<le> length h' \<and> (\<forall>b\<in>insert a A. h' ! b = h ! b)"
    then have "h' ! a = h ! a" by simp
    moreover have "reprs h' (map snd (h ! a)) (map snd kvs) A" using repr_Dict.IH h' by simp
    ultimately show "repr h' (DictRef a) (Dict kvs) (insert a A)"
      using repr_Dict.hyps h' by (auto intro!: repr_reprs.repr_Dict)
  qed
qed (auto intro: repr_reprs.intros)

lemma repr_frame:
  "repr h v d A \<Longrightarrow> length h \<le> length h' \<Longrightarrow> (\<And>a. a \<in> A \<Longrightarrow> h' ! a = h ! a) \<Longrightarrow> repr h' v d A"
  using repr_frame_both [of h v d A] by blast

lemma reprs_frame:
  "reprs h vs ds A \<Longrightarrow> length h \<le> length h' \<Longrightarrow> (\<And>a. a \<in> A \<Longrightarrow> h' ! a = h ! a) \<Longrightarrow> reprs h' vs ds A"
  using repr_frame_both [of h undefined undefined "{}" vs ds A] by blast

lemma repr_bound_both:
  "(repr h v d A \<longrightarrow> (\<forall>a\<in>A. a < length h)) \<and> (reprs h vs ds B \<longrightarrow> (\<forall>a\<in>B. a < length h))"
  by (induction rule: repr_reprs.induct) auto

lemma repr_bound: "repr h v d A \<Longrightarrow> a \<in> A \<Longrightarrow> a < length h"
  using repr_bound_both [of h v d A] by blast

lemma reprs_bound: "reprs h vs ds A \<Longrightarrow> a \<in> A \<Longrightarrow> a < length h"
  using repr_bound_both [of h undefined undefined "{}" vs ds A] by blast

lemma reprs_append:
  "reprs h vs ds A \<Longrightarrow> reprs h ws es B \<Longrightarrow> A \<inter> B = {} \<Longrightarrow> reprs h (vs @ ws) (ds @ es) (A \<union> B)"
proof (induction vs arbitrary: ds A)
  case Nil
  then show ?case by (auto elim: reprs.cases)
next
  case (Cons v vs)
  from Cons.prems(1) obtain d ds' A1 A2 where
    d: "ds = d # ds'" "A = A1 \<union> A2" "repr h v d A1" "reprs h vs ds' A2" "A1 \<inter> A2 = {}"
    by (auto elim: reprs.cases)
  have "reprs h (vs @ ws) (ds' @ es) (A2 \<union> B)"
    using Cons.IH [OF d(4) Cons.prems(2)] Cons.prems(3) d(2) by auto
  moreover have "A1 \<inter> (A2 \<union> B) = {}" using d(2,5) Cons.prems(3) by auto
  ultimately have "reprs h (v # (vs @ ws)) (d # (ds' @ es)) (A1 \<union> (A2 \<union> B))"
    using d(3) by (rule_tac reprs_Cons)
  then show ?case using d(1,2) by (simp add: Un_assoc)
qed

lemma repr_represents_both:
  "(repr h v d A \<longrightarrow> represents h v d) \<and> (reprs h vs ds B \<longrightarrow> list_all2 (represents h) vs ds)"
  by (induction rule: repr_reprs.induct)
     (auto intro: represents.intros simp: list_all2_rel_prod_eq)

lemma repr_represents: "repr h v d A \<Longrightarrow> represents h v d"
  using repr_represents_both [of h v d A] by blast

lemma reprs_represents: "reprs h vs ds A \<Longrightarrow> list_all2 (represents h) vs ds"
  using repr_represents_both [of h undefined undefined "{}" vs ds A] by blast

subsection \<open>Building a document in the store\<close>

lemma store_repr_all:
  fixes d :: "'a doc" and ds :: "'a doc list" and kvs :: "(key \<times> 'a doc) list"
  shows "(\<forall>v h. store d h0 = (v, h) \<longrightarrow> wf_doc d \<longrightarrow>
      (\<exists>A ext. repr h v d A \<and> (\<forall>a\<in>A. length h0 \<le> a) \<and> h = h0 @ ext \<and> length ext = ndicts d))"
    and "(\<forall>vs h. store_list ds h1 = (vs, h) \<longrightarrow> list_all wf_doc ds \<longrightarrow>
      (\<exists>A ext. reprs h vs ds A \<and> (\<forall>a\<in>A. length h1 \<le> a) \<and> h = h1 @ ext \<and>
         length ext = sum_list (map ndicts ds)))"
    and "(\<forall>items h. store_items kvs h2 = (items, h) \<longrightarrow> list_all (\<lambda>(k, v). wf_doc v) kvs \<longrightarrow>
      (\<exists>A ext. map fst items = map fst kvs \<and> reprs h (map snd items) (map snd kvs) A \<and>
         (\<forall>a\<in>A. length h2 \<le> a) \<and> h = h2 @ ext \<and>
         length ext = sum_list (map (\<lambda>(k, v). ndicts v) kvs)))"
proof (induction d h0 and ds h1 and kvs h2 rule: store_store_list_store_items.induct)
  case (1 x h)
  then show ?case by (auto intro: repr_Atom)
next
  case (2 ds h)
  then show ?case by (fastforce split: prod.splits intro: repr_List)
next
  case (3 kvs h)
  show ?case
  proof (intro allI impI)
    fix v h' assume st: "store (Dict kvs) h = (v, h')" and wf: "wf_doc (Dict kvs)"
    obtain items h1 where si: "store_items kvs h = (items, h1)" by (cases "store_items kvs h") auto
    with st have v: "v = DictRef (length h1)" "h' = h1 @ [items]" by auto
    from 3 si wf obtain A ext where
      A: "map fst items = map fst kvs" "reprs h1 (map snd items) (map snd kvs) A"
         "\<forall>a\<in>A. length h \<le> a" "h1 = h @ ext" "length ext = sum_list (map (\<lambda>(k, v). ndicts v) kvs)"
      by auto
    have lt: "\<And>a. a \<in> A \<Longrightarrow> a < length h1" using reprs_bound [OF A(2)] by blast
    have "reprs h' (map snd items) (map snd kvs) A"
      using A(2) by (rule reprs_frame) (auto simp: v nth_append dest: lt)
    then have "repr h' (DictRef (length h1)) (Dict kvs) (insert (length h1) A)"
      using A(1) wf lt by (intro repr_Dict) (auto simp: v nth_append)
    moreover have "\<forall>a\<in>insert (length h1) A. length h \<le> a" using A(3,4) by auto
    ultimately show "\<exists>A ext. repr h' v (Dict kvs) A \<and> (\<forall>a\<in>A. length h \<le> a) \<and> h' = h @ ext \<and>
        length ext = ndicts (Dict kvs)"
      using v A(4,5) by (intro exI [of _ "insert (length h1) A"] exI [of _ "ext @ [items]"]) auto
  qed
next
  case (4 h)
  then show ?case by (auto intro: reprs_Nil)
next
  case (5 d ds h)
  show ?case
  proof (intro allI impI)
    fix vs h' assume st: "store_list (d # ds) h = (vs, h')" and wf: "list_all wf_doc (d # ds)"
    obtain v h1 where s1: "store d h = (v, h1)" by (cases "store d h") auto
    obtain vs' h2 where s2: "store_list ds h1 = (vs', h2)" by (cases "store_list ds h1") auto
    from st s1 s2 have r: "vs = v # vs'" "h' = h2" by auto
    from 5(1) s1 wf obtain A1 e1 where
      A1: "repr h1 v d A1" "\<forall>a\<in>A1. length h \<le> a" "h1 = h @ e1" "length e1 = ndicts d" by auto
    from 5(2) [OF s1 [symmetric]] s2 wf obtain A2 e2 where
      A2: "reprs h2 vs' ds A2" "\<forall>a\<in>A2. length h1 \<le> a" "h2 = h1 @ e2"
          "length e2 = sum_list (map ndicts ds)" by auto
    have lt: "\<And>a. a \<in> A1 \<Longrightarrow> a < length h1" using repr_bound [OF A1(1)] by blast
    have "repr h2 v d A1" using A1(1) by (rule repr_frame) (auto simp: A2(3) nth_append dest: lt)
    moreover have "A1 \<inter> A2 = {}" using lt A2(2) by fastforce
    ultimately have "reprs h2 (v # vs') (d # ds) (A1 \<union> A2)" using A2(1) by (intro reprs_Cons)
    moreover have "\<forall>a\<in>A1 \<union> A2. length h \<le> a" using A1(2,3) A2(2) by auto
    ultimately show "\<exists>A ext. reprs h' vs (d # ds) A \<and> (\<forall>a\<in>A. length h \<le> a) \<and> h' = h @ ext \<and>
        length ext = sum_list (map ndicts (d # ds))"
      using r A1(3,4) A2(3,4) by (intro exI [of _ "A1 \<union> A2"] exI [of _ "e1 @ e2"]) auto
  qed
next
  case (6 h)
  then show ?case by (auto intro: reprs_Nil)
next
  case (7 k d kvs h)
  show ?case
  proof (intro allI impI)
    fix items h' assume st: "store_items ((k, d) # kvs) h = (items, h')"
      and wf: "list_all (\<lambda>(k, v). wf_doc v) ((k, d) # kvs)"
    obtain v h1 where s1: "store d h = (v, h1)" by (cases "store d h") auto
    obtain items' h2 where s2: "store_items kvs h1 = (items', h2)" by (cases "store_items kvs h1") auto
    from st s1 s2 have r: "items = (k, v) # items'" "h' = h2" by auto
    from 7(1) s1 wf obtain A1 e1 where
      A1: "repr h1 v d A1" "\<forall>a\<in>A1. length h \<le> a" "h1 = h @ e1" "length e1 = ndicts d" by auto
    from 7(2) [OF s1 [symmetric]] s2 wf obtain A2 e2 where
      A2: "map fst items' = map fst kvs" "reprs h2 (map snd items') (map snd kvs) A2"
          "\<forall>a\<in>A2. length h1 \<le> a" "h2 = h1 @ e2"
          "length e2 = sum_list (map (\<lambda>(k, v). ndicts v) kvs)" by auto
    have lt: "\<And>a. a \<in> A1 \<Longrightarrow> a < length h1" using repr_bound [OF A1(1)] by blast
    have "repr h2 v d A1" using A1(1) by (rule repr_frame) (auto simp: A2(4) nth_append dest: lt)
    moreover have "A1 \<inter> A2 = {}" using lt A2(3) by fastforce
    ultimately have "reprs h2 (v # map snd items') (d # map snd kvs) (A1 \<union> A2)"
      using A2(2) by (intro reprs_Cons)
    moreover have "\<forall>a\<in>A1 \<union> A2. length h \<le> a" using A1(2,3) A2(3) by auto
    ultimately show "\<exists>A ext. map fst items = map fst ((k, d) # kvs) \<and>
        reprs h' (map snd items) (map snd ((k, d) # kvs)) A \<and> (\<forall>a\<in>A. length h \<le> a) \<and> h' = h @ ext \<and>
        length ext = sum_list (map (\<lambda>(k, v). ndicts v) ((k, d) # kvs))"
      using r A1(3,4) A2(1,4,5) by (intro exI [of _ "A1 \<union> A2"] exI [of _ "e1 @ e2"]) auto
  qed
qed

lemma store_repr:
  assumes "store d [] = (v, h)" and "wf_doc d"
  shows "\<exists>A. repr h v d A" and "length h = ndicts d"
  using store_repr_all(1) [of d "[]"] assms by auto

subsection \<open>Renaming the entries of one dict\<close>

lemma fst_comp_rekey [simp]: "fst \<circ> (\<lambda>(k, v). (k, f v)) = fst"
  by (auto simp: fun_eq_iff)

lemma snd_comp_rekey [simp]: "snd \<circ> (\<lambda>(k, v). (k, f v)) = f \<circ> snd"
  by (auto simp: fun_eq_iff)

lemma update_rel:
  "list_all2 (rel_prod (=) R) d d' \<Longrightarrow> R v v' \<Longrightarrow>
     list_all2 (rel_prod (=) R) (AList.update k v d) (AList.update k v' d')"
proof (induction d arbitrary: d')
  case Nil
  then show ?case by simp
next
  case (Cons x d)
  then show ?case by (cases d'; cases x) (auto simp: rel_prod_sel)
qed

lemma delete_rel:
  "list_all2 (rel_prod (=) R) d d' \<Longrightarrow>
     list_all2 (rel_prod (=) R) (AList.delete k d) (AList.delete k d')"
proof (induction d arbitrary: d')
  case Nil
  then show ?case by (simp add: AList.delete_eq)
next
  case (Cons x d)
  then show ?case by (cases d'; cases x) (auto simp: rel_prod_sel AList.delete_eq)
qed

lemma rename_step_rel:
  "list_all2 (rel_prod (=) R) d d' \<Longrightarrow> R v v' \<Longrightarrow>
     list_all2 (rel_prod (=) R) (rename_step tr (k, v) d) (rename_step tr (k, v') d')"
  by (simp add: rename_step_def Let_def update_rel delete_rel)

lemma fold_rename_step_rel:
  "list_all2 (rel_prod (=) R) items items' \<Longrightarrow> list_all2 (rel_prod (=) R) d d' \<Longrightarrow>
     list_all2 (rel_prod (=) R) (fold (rename_step tr) items d) (fold (rename_step tr) items' d')"
proof (induction items arbitrary: items' d d')
  case Nil
  then show ?case by simp
next
  case (Cons x items)
  from Cons.prems(1) obtain y ys where y: "items' = y # ys" "rel_prod (=) R x y"
    "list_all2 (rel_prod (=) R) items ys"
    by (cases items') auto
  obtain k v where x: "x = (k, v)" by (cases x)
  with y(2) obtain v' where y': "y = (k, v')" "R v v'" by (cases y) auto
  show ?case
    using Cons.IH [OF y(3) rename_step_rel [OF Cons.prems(2) y'(2), of tr k]] x y y' by simp
qed

lemma rename_items_rel:
  "list_all2 (rel_prod (=) R) xs ys \<Longrightarrow>
     list_all2 (rel_prod (=) R) (rename_items tr xs) (rename_items tr ys)"
  by (simp add: rename_items_def fold_rename_step_rel)

lemma update_set_subset: "set (AList.update k v d) \<subseteq> insert (k, v) (set d)"
  by (induction d) auto

lemma rename_step_set_subset:
  "set (rename_step tr (k, v) d) \<subseteq> insert (translate_key tr k, v) (set d)"
proof (cases "translate_key tr k = k")
  case True
  then show ?thesis by (auto simp: rename_step_def)
next
  case False
  have "set (AList.delete k (AList.update (translate_key tr k) v d)) \<subseteq>
          set (AList.update (translate_key tr k) v d)"
    by (auto simp: AList.delete_eq)
  with update_set_subset [of "translate_key tr k" v d] False show ?thesis
    by (simp add: rename_step_def Let_def)
qed

lemma rename_step_values: "snd ` set (rename_step tr (k, v) d) \<subseteq> insert v (snd ` set d)"
  using rename_step_set_subset [of tr k v d] by force

lemma fold_rename_step_values:
  "snd ` set (fold (rename_step tr) items d) \<subseteq> snd ` set items \<union> snd ` set d"
proof (induction items arbitrary: d)
  case Nil
  then show ?case by simp
next
  case (Cons x items)
  obtain k v where x: "x = (k, v)" by (cases x)
  show ?case using Cons.IH [of "rename_step tr (k, v) d"] rename_step_values [of tr k v d] x
    by auto
qed

lemma rename_items_values: "snd ` set (rename_items tr xs) \<subseteq> snd ` set xs"
  using fold_rename_step_values [of tr xs xs] by (simp add: rename_items_def)

lemma rename_step_distinct: "distinct (map fst d) \<Longrightarrow> distinct (map fst (rename_step tr x d))"
  by (simp add: rename_step_def Let_def AList.distinct_update AList.distinct_delete)

lemma rename_items_distinct: "distinct (map fst xs) \<Longrightarrow> distinct (map fst (rename_items tr xs))"
proof -
  have "distinct (map fst d) \<Longrightarrow> distinct (map fst (fold (rename_step tr) items d))" for items and d :: "(key \<times> 'a) list"
    by (induction items arbitrary: d) (simp_all add: rename_step_distinct)
  then show "distinct (map fst xs) \<Longrightarrow> distinct (map fst (rename_items tr xs))"
    by (simp add: rename_items_def)
qed

lemma rename_step_keys:
  "fst ` set (rename_step tr (k, v) d) \<subseteq>
     insert (translate_key tr k) (fst ` set d - (if translate_key tr k = k then {} else {k}))"
proof (cases "translate_key tr k = k")
  case True
  then show ?thesis by (auto simp: rename_step_def)
next
  case False
  have "fst ` set (AList.delete k al) \<subseteq> fst ` set al - {k}" for al :: "(key \<times> 'a) list"
    by (auto simp: AList.delete_eq)
  from this [of "AList.update (translate_key tr k) v d"] False show ?thesis
    by (simp add: rename_step_def Let_def AList.dom_update) blast
qed

lemma fold_rename_step_keys:
  "fst ` set (fold (rename_step tr) items d) \<subseteq>
     translate_key tr ` fst ` set items \<union> (fst ` set d - fst ` set items)"
proof (induction items arbitrary: d)
  case Nil
  then show ?case by simp
next
  case (Cons x items)
  obtain k v where x: "x = (k, v)" by (cases x)
  define F where "F = fst ` set (fold (rename_step tr) items (rename_step tr (k, v) d))"
  define S where "S = fst ` set (rename_step tr (k, v) d)"
  define I where "I = fst ` set items"
  define D where "D = fst ` set d"
  have 1: "F \<subseteq> translate_key tr ` I \<union> (S - I)"
    unfolding F_def S_def I_def by (rule Cons.IH)
  have 2: "S \<subseteq> insert (translate_key tr k) (D - (if translate_key tr k = k then {} else {k}))"
    unfolding S_def D_def by (rule rename_step_keys)
  have "F \<subseteq> translate_key tr ` insert k I \<union> (D - insert k I)"
  proof
    fix a assume "a \<in> F"
    with 1 have "a \<in> translate_key tr ` I \<or> (a \<in> S \<and> a \<notin> I)" by blast
    then show "a \<in> translate_key tr ` insert k I \<union> (D - insert k I)"
    proof
      assume "a \<in> translate_key tr ` I"
      then show ?thesis by blast
    next
      assume a: "a \<in> S \<and> a \<notin> I"
      with 2 have "a = translate_key tr k \<or> (a \<in> D \<and> (translate_key tr k = k \<or> a \<noteq> k))"
        by (auto split: if_splits)
      with a show ?thesis by (cases "a = k") auto
    qed
  qed
  then show ?case by (simp add: x F_def I_def D_def)
qed

lemma rename_items_keys: "fst ` set (rename_items tr xs) \<subseteq> translate_key tr ` fst ` set xs"
  using fold_rename_step_keys [of tr xs xs] by (simp add: rename_items_def)

lemma rename_items_fixed:
  assumes "\<And>k. k \<in> fst ` set xs \<Longrightarrow> translate_key tr k = k"
  shows "rename_items tr xs = xs"
proof -
  have "fold (rename_step tr) items d = d" if "\<And>k. k \<in> fst ` set items \<Longrightarrow> translate_key tr k = k"
    for items and d :: "(key \<times> 'a) list"
    using that by (induction items arbitrary: d) (auto simp: rename_step_def)
  then show ?thesis using assms by (simp add: rename_items_def)
qed

subsection \<open>The traversal on a tree\<close>

text \<open>The parts of a work item, and the items of the queue that belong to one dict.\<close>

definition item_value :: "key \<times> 'a pyval \<times> nat \<Rightarrow> 'a pyval" where
  "item_value i = fst (snd i)"

definition item_field :: "key \<times> 'a pyval \<times> nat \<Rightarrow> nat" where
  "item_field i = snd (snd i)"

definition pending :: "nat \<Rightarrow> (key \<times> 'a pyval \<times> nat) list \<Rightarrow> (key \<times> 'a pyval) list" where
  "pending a q = map (\<lambda>i. (fst i, item_value i)) (filter (\<lambda>i. item_field i = a) q)"

lemma item_simps [simp]: "item_value (k, v, f) = v" "item_field (k, v, f) = f"
  by (simp_all add: item_value_def item_field_def)

lemma pending_Nil [simp]: "pending a [] = []"
  by (simp add: pending_def)

lemma pending_Cons [simp]:
  "pending a ((k, v, f) # q) = (if f = a then (k, v) # pending a q else pending a q)"
  by (simp add: pending_def)

lemma pending_append [simp]: "pending a (q @ q') = pending a q @ pending a q'"
  by (simp add: pending_def)

lemma pending_work_items_of [simp]: "pending a (work_items_of b h) = (if a = b then h ! b else [])"
proof -
  have "pending a (map (\<lambda>(k, v). (k, v, b)) xs) = (if a = b then xs else [])" for xs :: "(key \<times> 'a pyval) list"
    by (induction xs) (auto simp: pending_def)
  then show ?thesis by (simp add: work_items_of_def)
qed

lemma pending_none: "(\<And>i. i \<in> set q \<Longrightarrow> item_field i \<noteq> a) \<Longrightarrow> pending a q = []"
  by (induction q) (auto simp: pending_def)

lemma values_work_items_of [simp]: "map item_value (work_items_of b h) = map snd (h ! b)"
  by (simp add: work_items_of_def comp_def case_prod_unfold)

lemma fields_work_items_of: "i \<in> set (work_items_of b h) \<Longrightarrow> item_field i = b"
  by (auto simp: work_items_of_def)

lemma rename_step_keys_lower: "fst ` set d - {k} \<subseteq> fst ` set (rename_step tr (k, v) d)"
proof (cases "translate_key tr k = k")
  case True
  then show ?thesis by (auto simp: rename_step_def)
next
  case False
  have "fst ` set al - {k} \<subseteq> fst ` set (AList.delete k al)" for al :: "(key \<times> 'a) list"
    by (force simp: AList.delete_eq)
  from this [of "AList.update (translate_key tr k) v d"] False show ?thesis
    by (simp add: rename_step_def Let_def AList.dom_update) blast
qed

lemma weight_children: "sum_list (map (weight \<circ> snd) kvs) = sum_list (map (\<lambda>(k, v). weight v) kvs)"
  by (simp add: comp_def case_prod_unfold)

lemma weight_pos: "0 < weight d"
  by (cases d) auto

text \<open>One turn of the loop, on an item whose key is an entry of its dict.\<close>

lemma work_loop_step:
  assumes "f < length h" and "k \<in> fst ` set (h ! f)"
    and h1_def: "h1 = h[f := rename_step tr (k, v) (h ! f)]"
  shows "work_loop tr ((k, v, f) # rest) h =
           (case v of
              DictRef a \<Rightarrow> (if a \<ge> length h1 then Some (Inl (Dangling a))
                            else work_loop tr (rest @ work_items_of a h1) h1)
            | _ \<Rightarrow> work_loop tr rest h1)"
proof -
  have "(if translate_key tr k \<noteq> k
         then delitem f k (setitem f (translate_key tr k) v h) else Inr h) = Inr h1"
    using assms(1,2)
    by (auto simp: h1_def rename_step_def delitem_def setitem_def Let_def AList.dom_update list_update_same_conv)
  then show ?thesis
    using assms(1) by (subst work_loop.simps) (simp add: Let_def)
qed

text \<open>A dict whose entries have been renamed, and whose values hold the translated children.\<close>

lemma represents_renamed:
  assumes "b < length h'"
    and "h' ! b = rename_items tr items"
    and "map fst items = map fst kvs"
    and "list_all2 (represents h') (map snd items) (map (translated tr) (map snd kvs))"
  shows "represents h' (DictRef b) (translated tr (Dict kvs))"
proof -
  let ?kvs' = "map (\<lambda>(k, v). (k, translated tr v)) kvs"
  have "map fst ?kvs' = map fst kvs" "map snd ?kvs' = map (translated tr) (map snd kvs)"
    by (induction kvs) auto
  with assms(3,4) have "list_all2 (rel_prod (=) (represents h')) items ?kvs'"
    by (simp only: list_all2_rel_prod_eq simp_thms)
  then have "list_all2 (rel_prod (=) (represents h')) (rename_items tr items) (rename_items tr ?kvs')"
    by (rule rename_items_rel)
  with assms(1,2) show ?thesis
    by (auto intro: represents_Dict)
qed

text \<open>
  The loop on a queue over a tree: the values of the work items hold documents in disjoint
  parts of the store, the dicts the items belong to lie outside these parts, and the keys
  of the items of one dict are distinct keys of that dict. Then the loop ends without an
  error; every dict outside the parts has had the steps of its own items applied, in their
  order; and every value holds the translation of its document.
\<close>

lemma work_loop_tree:
  fixes q :: "(key \<times> 'a pyval \<times> nat) list"
  assumes "reprs h (map item_value q) ds A"
    and "\<forall>i\<in>set q. item_field i < length h \<and> item_field i \<notin> A"
    and "\<forall>a. distinct (map fst (pending a q)) \<and> fst ` set (pending a q) \<subseteq> fst ` set (h ! a)"
  shows "\<exists>h'. work_loop tr q h = Some (Inr h') \<and> length h' = length h \<and>
           (\<forall>a. a < length h \<and> a \<notin> A \<longrightarrow> h' ! a = fold (rename_step tr) (pending a q) (h ! a)) \<and>
           list_all2 (represents h') (map item_value q) (map (translated tr) ds)"
  using assms
proof (induction "sum_list (map weight ds)" arbitrary: q h ds A rule: less_induct)
  case less
  show ?case
  proof (cases q)
    case Nil
    with less.prems(1) have "ds = []" using reprs_length by fastforce
    with Nil show ?thesis by (simp add: work_loop.simps)
  next
    case (Cons i rest)
    obtain k v f where i: "i = (k, v, f)" by (cases i)
    from less.prems(1) obtain d ds' A1 A2 where
      ds: "ds = d # ds'" and A: "A = A1 \<union> A2" and rv: "repr h v d A1"
      and rr: "reprs h (map item_value rest) ds' A2" and dj: "A1 \<inter> A2 = {}"
      unfolding Cons i by (auto elim: reprs.cases)
    from less.prems(2) have f: "f < length h" "f \<notin> A"
      and fr: "\<And>j. j \<in> set rest \<Longrightarrow> item_field j < length h \<and> item_field j \<notin> A"
      unfolding Cons i by auto
    from less.prems(3) [rule_format, of f] have kf: "k \<in> fst ` set (h ! f)"
      and kr: "k \<notin> fst ` set (pending f rest)"
      unfolding Cons i by auto
    have pr: "distinct (map fst (pending a rest))" "fst ` set (pending a rest) \<subseteq> fst ` set (h ! a)" for a
      using less.prems(3) [rule_format, of a] unfolding Cons i by (auto split: if_splits)
    define h1 where "h1 = h[f := rename_step tr (k, v) (h ! f)]"
    have len1: "length h1 = length h" by (simp add: h1_def)
    have h1f: "h1 ! f = rename_step tr (k, v) (h ! f)" using f(1) by (simp add: h1_def)
    have h1o: "h1 ! a = h ! a" if "a \<noteq> f" for a using that by (simp add: h1_def)
    have h1A: "h1 ! a = h ! a" if "a \<in> A" for a using that f(2) by (intro h1o) auto
    have step: "work_loop tr q h =
           (case v of
              DictRef a \<Rightarrow> (if a \<ge> length h1 then Some (Inl (Dangling a))
                            else work_loop tr (rest @ work_items_of a h1) h1)
            | _ \<Rightarrow> work_loop tr rest h1)"
      unfolding Cons i using f(1) kf h1_def by (rule work_loop_step)
    have rr1: "reprs h1 (map item_value rest) ds' A2"
      using rr by (rule reprs_frame) (auto simp: len1 A intro: h1A)
    have pend_rest: "pending a rest = []" if "a \<in> A" for a
      using that fr by (intro pending_none) auto
    have pr1: "fst ` set (pending a rest) \<subseteq> fst ` set (h1 ! a)" for a
    proof (cases "a = f")
      case True
      have "fst ` set (pending f rest) \<subseteq> fst ` set (h ! f) - {k}" using pr(2) [of f] kr by blast
      also have "\<dots> \<subseteq> fst ` set (h1 ! f)" unfolding h1f by (rule rename_step_keys_lower)
      finally show ?thesis using True by simp
    next
      case False
      then show ?thesis using pr(2) [of a] h1o by simp
    qed
    have fold_q: "fold (rename_step tr) (pending a rest) (h1 ! a) = fold (rename_step tr) (pending a q) (h ! a)"
      if "a < length h" for a
      unfolding Cons i using h1f h1o [of a] by (cases "a = f") auto
    show ?thesis
    proof (cases "\<exists>b. v = DictRef b")
      case True
      then obtain b where v: "v = DictRef b" by blast
      from rv obtain kvs A1' where d: "d = Dict kvs" and A1: "A1 = insert b A1'" and b: "b < length h"
        and keys: "map fst (h ! b) = map fst kvs" and dist: "distinct (map fst kvs)"
        and rc: "reprs h (map snd (h ! b)) (map snd kvs) A1'" and bn: "b \<notin> A1'"
        unfolding v by (auto elim: repr.cases)
      have bA: "b \<in> A" using A A1 by simp
      then have bf: "b \<noteq> f" using f(2) by blast
      have h1b: "h1 ! b = h ! b" using bf by (rule h1o)
      let ?q' = "rest @ work_items_of b h1"
      let ?ds' = "ds' @ map snd kvs"
      let ?A' = "A2 \<union> A1'"
      have rc1: "reprs h1 (map snd (h ! b)) (map snd kvs) A1'"
        using rc by (rule reprs_frame) (auto simp: len1 A A1 intro: h1A)
      have 1: "reprs h1 (map item_value ?q') ?ds' ?A'"
        using reprs_append [OF rr1 rc1] dj A1 by (auto simp: h1b)
      have 2: "\<forall>j\<in>set ?q'. item_field j < length h1 \<and> item_field j \<notin> ?A'"
        using fr b bn dj A A1 by (auto simp: len1 dest: fields_work_items_of)
      have 3: "\<forall>a. distinct (map fst (pending a ?q')) \<and> fst ` set (pending a ?q') \<subseteq> fst ` set (h1 ! a)"
      proof
        fix a
        show "distinct (map fst (pending a ?q')) \<and> fst ` set (pending a ?q') \<subseteq> fst ` set (h1 ! a)"
        proof (cases "a = b")
          case True
          then show ?thesis using pend_rest [OF bA] dist keys by (simp add: h1b)
        next
          case False
          then show ?thesis using pr(1) [of a] pr1 [of a] by simp
        qed
      qed
      have 4: "sum_list (map weight ?ds') < sum_list (map weight ds)"
        by (simp add: ds d weight_children)
      from less.hyps [OF 4 1 2 3] obtain h' where
        run: "work_loop tr ?q' h1 = Some (Inr h')" and len: "length h' = length h1"
        and cells: "\<And>a. a < length h1 \<Longrightarrow> a \<notin> ?A' \<Longrightarrow>
              h' ! a = fold (rename_step tr) (pending a ?q') (h1 ! a)"
        and vals: "list_all2 (represents h') (map item_value ?q') (map (translated tr) ?ds')"
        by blast
      have "work_loop tr q h = Some (Inr h')"
        using step run b by (simp add: v len1)
      moreover have "length h' = length h" using len len1 by simp
      moreover have "h' ! a = fold (rename_step tr) (pending a q) (h ! a)" if "a < length h" "a \<notin> A" for a
      proof -
        have "a \<noteq> b" "a \<notin> ?A'" using that(2) A A1 by auto
        with cells [of a] that(1) have "h' ! a = fold (rename_step tr) (pending a rest) (h1 ! a)"
          by (simp add: len1)
        then show ?thesis using fold_q [OF that(1)] by simp
      qed
      moreover have "list_all2 (represents h') (map item_value q) (map (translated tr) ds)"
      proof -
        have l: "length (map item_value rest) = length (map (translated tr) ds')"
          using reprs_length [OF rr] by simp
        from vals have "list_all2 (represents h') (map item_value rest @ map snd (h ! b))
            (map (translated tr) ds' @ map (translated tr) (map snd kvs))"
          by (simp add: h1b)
        then have v1: "list_all2 (represents h') (map item_value rest) (map (translated tr) ds')"
          and v2: "list_all2 (represents h') (map snd (h ! b)) (map (translated tr) (map snd kvs))"
          using list_all2_append [OF l] by blast+
        have "b \<notin> ?A'" using bn dj A1 by auto
        with cells [of b] b have "h' ! b = rename_items tr (h ! b)"
          by (simp add: len1 h1b pend_rest [OF bA] rename_items_def)
        with b len len1 keys v2 have "represents h' (DictRef b) (translated tr (Dict kvs))"
          by (intro represents_renamed [where items = "h ! b"]) simp_all
        with v1 show ?thesis by (simp add: Cons i ds d v)
      qed
      ultimately show ?thesis by blast
    next
      case False
      then have step': "work_loop tr q h = work_loop tr rest h1"
        using step by (cases v) auto
      have td: "translated tr d = d"
      proof (cases v)
        case (Atom x)
        with rv show ?thesis by (auto elim: repr_AtomE)
      next
        case (PyList vs)
        with rv show ?thesis by (auto elim: repr_ListE)
      next
        case (DictRef b)
        with False show ?thesis by simp
      qed
      have 3: "\<forall>a. distinct (map fst (pending a rest)) \<and> fst ` set (pending a rest) \<subseteq> fst ` set (h1 ! a)"
        using pr(1) pr1 by blast
      have 2: "\<forall>j\<in>set rest. item_field j < length h1 \<and> item_field j \<notin> A2"
        using fr A by (auto simp: len1)
      have 4: "sum_list (map weight ds') < sum_list (map weight ds)"
        using weight_pos [of d] by (simp add: ds)
      from less.hyps [OF 4 rr1 2 3] obtain h' where
        run: "work_loop tr rest h1 = Some (Inr h')" and len: "length h' = length h1"
        and cells: "\<And>a. a < length h1 \<Longrightarrow> a \<notin> A2 \<Longrightarrow>
              h' ! a = fold (rename_step tr) (pending a rest) (h1 ! a)"
        and vals: "list_all2 (represents h') (map item_value rest) (map (translated tr) ds')"
        by blast
      have "work_loop tr q h = Some (Inr h')" using step' run by simp
      moreover have "length h' = length h" using len len1 by simp
      moreover have "h' ! a = fold (rename_step tr) (pending a q) (h ! a)" if "a < length h" "a \<notin> A" for a
      proof -
        have "a \<notin> A2" using that(2) A by auto
        with cells [of a] that(1) have "h' ! a = fold (rename_step tr) (pending a rest) (h1 ! a)"
          by (simp add: len1)
        then show ?thesis using fold_q [OF that(1)] by simp
      qed
      moreover have "list_all2 (represents h') (map item_value q) (map (translated tr) ds)"
      proof -
        have same: "h' ! a = h ! a" if "a \<in> A1" for a
        proof -
          have a: "a < length h" "a \<notin> A2" "a \<in> A" using repr_bound [OF rv that] dj that A by auto
          with cells [of a] have "h' ! a = h1 ! a" by (simp add: len1 pend_rest)
          then show ?thesis using h1A a(3) by simp
        qed
        from rv have "repr h' v d A1" by (rule repr_frame) (simp_all add: len len1 same)
        then have "represents h' v d" by (rule repr_represents)
        with vals show ?thesis by (simp add: Cons i ds td)
      qed
      ultimately show ?thesis by blast
    qed
  qed
qed

subsection \<open>Reading the result back\<close>

lemma fold_max_le: "fold max xs a \<le> (b::nat) \<longleftrightarrow> a \<le> b \<and> (\<forall>x\<in>set xs. x \<le> b)"
  by (induction xs arbitrary: a) auto

lemma load_list_Some:
  "list_all2 (\<lambda>v d. load n h v = Some d) vs ds \<Longrightarrow> load_list n h vs = Some ds"
  by (induction vs ds rule: list_all2_induct) auto

lemma load_items_Some:
  "list_all2 (rel_prod (=) (\<lambda>v d. load n h v = Some d)) items kvs \<Longrightarrow> load_items n h items = Some kvs"
proof (induction items kvs rule: list_all2_induct)
  case Nil
  then show ?case by simp
next
  case (Cons x xs y ys)
  then show ?case by (cases x; cases y) auto
qed

lemma represents_load: "represents h v d \<Longrightarrow> depth d \<le> n \<Longrightarrow> load n h v = Some d"
proof (induction arbitrary: n rule: represents.induct)
  case (represents_Atom h x)
  then show ?case by simp
next
  case (represents_List h vs ds)
  from represents_List.prems have "\<forall>d\<in>set ds. depth d \<le> n"
    by (simp add: fold_max_le)
  with represents_List.IH have "list_all2 (\<lambda>v d. load n h v = Some d) vs ds"
    by (auto elim!: list_all2_mono simp: list_all2_conv_all_nth)
  then show ?case by (simp add: load_list_Some)
next
  case (represents_Dict a h kvs)
  from represents_Dict.prems obtain m where n: "n = Suc m"
    and m: "\<forall>x\<in>set kvs. depth (snd x) \<le> m"
    by (cases n) (auto simp: fold_max_le case_prod_unfold)
  have "list_all2 (rel_prod (=) (\<lambda>v d. load m h v = Some d)) (h ! a) kvs"
    using represents_Dict.IH m
    by (auto simp: list_all2_conv_all_nth rel_prod_sel)
  then show ?case using represents_Dict.hyps n by (simp add: load_items_Some)
qed

lemma depth_translated: "depth (translated tr d) \<le> depth d"
proof (induction tr d rule: translated.induct)
  case (1 tr kvs)
  let ?kvs' = "map (\<lambda>(k, v). (k, translated tr v)) kvs"
  let ?m = "fold max (map (\<lambda>(k, v). depth v) kvs) 0"
  have "depth (snd x) \<le> ?m" if "x \<in> set (rename_items tr ?kvs')" for x
  proof -
    from that rename_items_values [of tr ?kvs'] have "snd x \<in> snd ` set ?kvs'" by blast
    then obtain k v where kv: "(k, v) \<in> set kvs" "snd x = translated tr v" by auto
    from kv(1) have "depth v \<le> ?m"
      using fold_max_le [of "map (\<lambda>(k, v). depth v) kvs" 0 ?m] by force
    with 1 [OF kv(1) refl] kv(2) show ?thesis by simp
  qed
  then show ?case by (simp add: fold_max_le case_prod_unfold)
qed simp_all

lemma depth_le_ndicts: "depth d \<le> ndicts d"
proof (induction d)
  case (Scalar x)
  then show ?case by simp
next
  case (Seq ds)
  have "depth d \<le> sum_list (map ndicts ds)" if "d \<in> set ds" for d
    using Seq [OF that] member_le_sum_list [of "ndicts d" "map ndicts ds"] that by force
  then show ?case by (simp add: fold_max_le)
next
  case (Dict kvs)
  have "depth (snd x) \<le> sum_list (map (\<lambda>(k, v). ndicts v) kvs)" if "x \<in> set kvs" for x
  proof -
    have "depth (snd x) \<le> ndicts (snd x)" using Dict [OF that] by (cases x) auto
    moreover have "ndicts (snd x) \<in> set (map (\<lambda>(k, v). ndicts v) kvs)"
      using that by (auto simp: case_prod_unfold)
    ultimately show ?thesis using member_le_sum_list by fastforce
  qed
  then show ?case by (simp add: fold_max_le case_prod_unfold)
qed

subsection \<open>The traversal on a document\<close>

text \<open>
  On a document whose mappings have no repeated key the function returns, without an
  error, and what it returns reads as the translated document.
\<close>

lemma translate_chars_document:
  fixes d :: "'a doc"
  assumes "wf_doc d"
  shows "on_document (\<lambda>field h. translate_chars field tr h) d = Some (Inr (translated tr d))"
proof -
  obtain v h where st: "store d [] = (v, h)" by (cases "store d []")
  from store_repr [OF st assms] obtain A where r: "repr h v d A" and lh: "length h = ndicts d"
    by blast
  have dp: "depth (translated tr d) \<le> length h"
    using depth_translated [of tr d] depth_le_ndicts [of d] lh by simp
  show ?thesis
  proof (cases "\<exists>a. v = DictRef a")
    case True
    then obtain a where v: "v = DictRef a" by blast
    from r obtain kvs A' where d: "d = Dict kvs" and a: "a < length h"
      and keys: "map fst (h ! a) = map fst kvs" and dist: "distinct (map fst kvs)"
      and rc: "reprs h (map snd (h ! a)) (map snd kvs) A'" and an: "a \<notin> A'"
      unfolding v by (auto elim: repr_DictE)
    let ?q = "work_items_of a h"
    have 1: "reprs h (map item_value ?q) (map snd kvs) A'" using rc by simp
    have 2: "\<forall>i\<in>set ?q. item_field i < length h \<and> item_field i \<notin> A'"
      using a an by (auto dest: fields_work_items_of)
    have 3: "\<forall>b. distinct (map fst (pending b ?q)) \<and> fst ` set (pending b ?q) \<subseteq> fst ` set (h ! b)"
      using dist keys by simp
    from work_loop_tree [OF 1 2 3, of tr] obtain h' where
      run: "work_loop tr ?q h = Some (Inr h')" and len: "length h' = length h"
      and cells: "\<forall>b. b < length h \<and> b \<notin> A' \<longrightarrow> h' ! b = fold (rename_step tr) (pending b ?q) (h ! b)"
      and vals: "list_all2 (represents h') (map item_value ?q) (map (translated tr) (map snd kvs))"
      by blast
    from cells a an have "h' ! a = rename_items tr (h ! a)"
      by (simp add: rename_items_def)
    with a len keys vals have "represents h' (DictRef a) (translated tr (Dict kvs))"
      by (intro represents_renamed [where items = "h ! a"]) simp_all
    then have "load (length h') h' (DictRef a) = Some (translated tr d)"
      using dp len d by (intro represents_load) simp_all
    then show ?thesis
      using st run a by (simp add: on_document_def translate_chars_def v)
  next
    case False
    then have tc: "translate_chars v tr h = Some (Inr (v, h))"
      by (cases v) (simp_all add: translate_chars_def)
    have td: "translated tr d = d"
    proof (cases v)
      case (Atom x)
      with r show ?thesis by (auto elim: repr_AtomE)
    next
      case (PyList vs)
      with r show ?thesis by (auto elim: repr_ListE)
    next
      case (DictRef b)
      with False show ?thesis by simp
    qed
    have "load (length h) h v = Some d"
      using repr_represents [OF r] dp td by (intro represents_load) simp_all
    then show ?thesis
      using st tc td by (simp add: on_document_def)
  qed
qed

subsection \<open>The two translations on keys\<close>

lemma translate_key_ESCAPE:
  "translate_key ESCAPE_TRANSLATION k = map (\<lambda>ch. if ch = 46 then 65294 else if ch = 36 then 65284 else ch) k"
  by (simp add: translate_key_def ESCAPE_TRANSLATION_def UNESCAPED_def ESCAPED_def replace_def)

lemma translate_key_UNESCAPE:
  "translate_key UNESCAPE_TRANSLATION k = map (\<lambda>ch. if ch = 65294 then 46 else if ch = 65284 then 36 else ch) k"
  by (simp add: translate_key_def UNESCAPE_TRANSLATION_def UNESCAPED_def ESCAPED_def replace_def)

lemma escape_key_idem:
  "translate_key ESCAPE_TRANSLATION (translate_key ESCAPE_TRANSLATION k) = translate_key ESCAPE_TRANSLATION k"
  by (simp add: translate_key_ESCAPE)

lemma unescape_key_idem:
  "translate_key UNESCAPE_TRANSLATION (translate_key UNESCAPE_TRANSLATION k) = translate_key UNESCAPE_TRANSLATION k"
  by (simp add: translate_key_UNESCAPE)

lemma unescape_escape_key:
  "set k \<inter> set ESCAPED = {} \<Longrightarrow> translate_key UNESCAPE_TRANSLATION (translate_key ESCAPE_TRANSLATION k) = k"
  by (auto simp: translate_key_ESCAPE translate_key_UNESCAPE ESCAPED_def intro!: map_idI)

subsection \<open>Well-formedness and idempotence\<close>

lemma escape_chars_eq: "escape_chars = (\<lambda>field h. translate_chars field ESCAPE_TRANSLATION h)"
  by (simp add: fun_eq_iff escape_chars_def)

lemma unescape_chars_eq: "unescape_chars = (\<lambda>field h. translate_chars field UNESCAPE_TRANSLATION h)"
  by (simp add: fun_eq_iff unescape_chars_def)

lemma escape_chars_document:
  "wf_doc d \<Longrightarrow> on_document escape_chars d = Some (Inr (translated ESCAPE_TRANSLATION d))"
  unfolding escape_chars_eq by (rule translate_chars_document)

lemma unescape_chars_document:
  "wf_doc d \<Longrightarrow> on_document unescape_chars d = Some (Inr (translated UNESCAPE_TRANSLATION d))"
  unfolding unescape_chars_eq by (rule translate_chars_document)

lemma wf_translated: "wf_doc d \<Longrightarrow> wf_doc (translated tr d)"
proof (induction tr d rule: translated.induct)
  case (1 tr kvs)
  let ?kvs' = "map (\<lambda>(k, v). (k, translated tr v)) kvs"
  from 1(2) have "distinct (map fst (rename_items tr ?kvs'))"
    by (intro rename_items_distinct) simp
  moreover have "wf_doc (snd x)" if "x \<in> set (rename_items tr ?kvs')" for x
  proof -
    from that rename_items_values [of tr ?kvs'] have "snd x \<in> snd ` set ?kvs'" by blast
    then obtain k v where kv: "(k, v) \<in> set kvs" "snd x = translated tr v" by auto
    from 1(2) kv(1) have "wf_doc v" by (auto simp: list_all_iff)
    with 1(1) [OF kv(1) refl] kv(2) show ?thesis by simp
  qed
  ultimately show ?case by (auto simp: list_all_iff)
qed simp_all

text \<open>A document all of whose keys, through mapping nesting, the translation leaves alone.\<close>

fun keys_fixed :: "(nat \<times> nat) list \<Rightarrow> 'a doc \<Rightarrow> bool" where
  "keys_fixed tr (Dict kvs) = list_all (\<lambda>(k, v). translate_key tr k = k \<and> keys_fixed tr v) kvs"
| "keys_fixed tr (Seq ds) = True"
| "keys_fixed tr (Scalar x) = True"

lemma translated_fixed: "keys_fixed tr d \<Longrightarrow> translated tr d = d"
proof (induction tr d rule: translated.induct)
  case (1 tr kvs)
  have "map (\<lambda>(k, v). (k, translated tr v)) kvs = kvs"
    using 1 by (intro map_idI) (auto simp: list_all_iff)
  moreover have "rename_items tr kvs = kvs"
    using 1(2) by (intro rename_items_fixed) (auto simp: list_all_iff)
  ultimately show ?case by simp
qed simp_all

lemma keys_fixed_translated:
  assumes "\<And>k. translate_key tr (translate_key tr k) = translate_key tr k"
  shows "keys_fixed tr (translated tr d)"
  using assms
proof (induction tr d rule: translated.induct)
  case (1 tr kvs)
  let ?kvs' = "map (\<lambda>(k, v). (k, translated tr v)) kvs"
  have "translate_key tr (fst x) = fst x \<and> keys_fixed tr (snd x)" if "x \<in> set (rename_items tr ?kvs')" for x
  proof
    from that rename_items_keys [of tr ?kvs'] have "fst x \<in> translate_key tr ` fst ` set ?kvs'" by blast
    then show "translate_key tr (fst x) = fst x" using 1(2) by auto
  next
    from that rename_items_values [of tr ?kvs'] have "snd x \<in> snd ` set ?kvs'" by blast
    then obtain k v where kv: "(k, v) \<in> set kvs" "snd x = translated tr v" by auto
    with 1(1) [OF kv(1) refl 1(2)] show "keys_fixed tr (snd x)" by simp
  qed
  then show ?case by (auto simp: list_all_iff)
qed simp_all

lemma translated_idem:
  assumes "\<And>k. translate_key tr (translate_key tr k) = translate_key tr k"
  shows "translated tr (translated tr d) = translated tr d"
  by (intro translated_fixed keys_fixed_translated assms)



subsection \<open>Running the functions on given documents\<close>

lemmas run_simps =
  on_document_def escape_chars_def unescape_chars_def translate_chars_def work_items_of_def
  work_loop.simps ESCAPE_TRANSLATION_def UNESCAPE_TRANSLATION_def ESCAPED_def UNESCAPED_def
  translate_key_def replace_def setitem_def delitem_def Let_def

subsection \<open>Idempotence\<close>

text \<open>
  Claim C10. On every document (its mappings without repeated keys) \<open>escape_chars\<close>
  returns, and returns its own result unchanged when run on that result; the same holds
  of \<open>unescape_chars\<close>. The characters a pass writes are not among those it replaces, so
  after one pass no key is rewritten again.
\<close>

theorem translation_idempotent:
  assumes "wf_doc d"
  shows "\<exists>d1 d2. on_document escape_chars d = Some (Inr d1) \<and>
                 on_document escape_chars d1 = Some (Inr d1) \<and>
                 on_document unescape_chars d = Some (Inr d2) \<and>
                 on_document unescape_chars d2 = Some (Inr d2)"
proof -
  let ?d1 = "translated ESCAPE_TRANSLATION d" and ?d2 = "translated UNESCAPE_TRANSLATION d"
  have "on_document escape_chars ?d1 = Some (Inr ?d1)"
    using escape_chars_document [OF wf_translated [OF assms], of ESCAPE_TRANSLATION]
    by (simp add: translated_idem escape_key_idem)
  moreover have "on_document unescape_chars ?d2 = Some (Inr ?d2)"
    using unescape_chars_document [OF wf_translated [OF assms], of UNESCAPE_TRANSLATION]
    by (simp add: translated_idem unescape_key_idem)
  ultimately show ?thesis
    using escape_chars_document [OF assms] unescape_chars_document [OF assms] by blast
qed

theorem translation_idempotent_witness:
  "wf_doc (Dict [([46, 97], Scalar (1::nat)), ([65294, 97], Dict [([36], Scalar 2)])]) \<and>
   on_document escape_chars (Dict [([46, 97], Scalar (1::nat)), ([65294, 97], Dict [([36], Scalar 2)])]) =
     Some (Inr (Dict [([65294, 97], Scalar 1)])) \<and>
   on_document escape_chars (Dict [([65294, 97], Scalar (1::nat))]) = Some (Inr (Dict [([65294, 97], Scalar 1)])) \<and>
   on_document unescape_chars (Dict [([46, 97], Scalar (1::nat)), ([65294, 97], Dict [([36], Scalar 2)])]) =
     Some (Inr (Dict [([46, 97], Dict [([36], Scalar 2)])])) \<and>
   on_document unescape_chars (Dict [([46, 97], Dict [([36], Scalar (2::nat))])]) =
     Some (Inr (Dict [([46, 97], Dict [([36], Scalar 2)])]))"
proof -
  let ?d = "Dict [([46, 97], Scalar (1::nat)), ([65294, 97], Dict [([36], Scalar 2)])]"
  have wf: "wf_doc ?d" by simp
  have e: "on_document escape_chars ?d = Some (Inr (Dict [([65294, 97], Scalar 1)]))"
    by (simp add: run_simps)
  have u: "on_document unescape_chars ?d = Some (Inr (Dict [([46, 97], Dict [([36], Scalar 2)])]))"
    by (simp add: run_simps)
  from translation_idempotent [OF wf] e u show ?thesis
    by auto
qed

subsection \<open>Sequences\<close>



subsection \<open>Documents up to the order of their entries\<close>

text \<open>
  Two dicts are equal in Python when they have the same entries, in whatever order. The
  content of a document forgets the order of the entries of its mappings, and of nothing
  else.
\<close>

datatype 'a cdoc = CScalar 'a | CSeq "'a cdoc list" | CDict "(key \<times> 'a cdoc) multiset"

fun content :: "'a doc \<Rightarrow> 'a cdoc" where
  "content (Scalar x) = CScalar x"
| "content (Seq ds) = CSeq (map content ds)"
| "content (Dict kvs) = CDict (mset (map (\<lambda>(k, v). (k, content v)) kvs))"

text \<open>The document with every key, through mapping nesting, rewritten where it stands.\<close>

fun rekeyed :: "(key \<Rightarrow> key) \<Rightarrow> 'a doc \<Rightarrow> 'a doc" where
  "rekeyed f (Dict kvs) = Dict (map (\<lambda>(k, v). (f k, rekeyed f v)) kvs)"
| "rekeyed f (Seq ds) = Seq ds"
| "rekeyed f (Scalar x) = Scalar x"

text \<open>No mapping, through mapping nesting, has two keys with the same translation.\<close>

fun collision_free :: "(nat \<times> nat) list \<Rightarrow> 'a doc \<Rightarrow> bool" where
  "collision_free tr (Dict kvs) =
     (distinct (map (\<lambda>(k, v). translate_key tr k) kvs) \<and> list_all (\<lambda>(k, v). collision_free tr v) kvs)"
| "collision_free tr (Seq ds) = True"
| "collision_free tr (Scalar x) = True"

text \<open>No key, through mapping nesting, holds one of the substitute characters.\<close>

fun plain_keys :: "'a doc \<Rightarrow> bool" where
  "plain_keys (Dict kvs) = list_all (\<lambda>(k, v). set k \<inter> set ESCAPED = {} \<and> plain_keys v) kvs"
| "plain_keys (Seq ds) = True"
| "plain_keys (Scalar x) = True"

lemma update_fresh: "k \<notin> fst ` set al \<Longrightarrow> AList.update k v al = al @ [(k, v)]"
  by (induction al) auto

lemma mset_delete: "mset (AList.delete k al) = filter_mset (\<lambda>x. fst x \<noteq> k) (mset al)"
  by (induction al) (auto simp: AList.delete_eq)

lemma fold_rename_mset:
  fixes S :: "(key \<times> 'v) list"
  assumes "\<And>k. translate_key tr (translate_key tr k) = translate_key tr k"
    and "distinct (map (translate_key tr) (map fst (P @ S)))"
    and "mset d = image_mset (\<lambda>x. (translate_key tr (fst x), snd x)) (mset P) + mset S"
  shows "mset (fold (rename_step tr) S d) = image_mset (\<lambda>x. (translate_key tr (fst x), snd x)) (mset (P @ S))"
  using assms(2,3)
proof (induction S arbitrary: P d)
  case Nil
  then show ?case by simp
next
  case (Cons x S)
  obtain k v where x: "x = (k, v)" by (cases x)
  let ?t = "translate_key tr"
  let ?ren = "\<lambda>x. (?t (fst x), snd x)"
  have idem: "?t (?t k') = ?t k'" for k' by (rule assms(1))
  from Cons.prems(1) have nP: "?t k \<notin> (\<lambda>x. ?t (fst x)) ` set P"
    and nS: "?t k \<notin> (\<lambda>x. ?t (fst x)) ` set S"
    unfolding x by auto
  have dP: "?t p \<noteq> ?t k" if "p \<in> fst ` set P" for p using nP that by force
  have dS: "?t s \<noteq> ?t k" if "s \<in> fst ` set S" for s using nS that by force
  have step: "mset (rename_step tr (k, v) d) = image_mset ?ren (mset (P @ [(k, v)])) + mset S"
  proof (cases "?t k = k")
    case True
    then show ?thesis using Cons.prems(2) by (simp add: rename_step_def x)
  next
    case False
    have keys: "fst ` set d = ?t ` fst ` set P \<union> insert k (fst ` set S)"
    proof -
      have "set d = set_mset (mset d)" by simp
      also have "\<dots> = ?ren ` set P \<union> insert (k, v) (set S)"
        unfolding Cons.prems(2) x by simp
      finally have "fst ` set d = fst ` (?ren ` set P) \<union> fst ` insert (k, v) (set S)"
        by (simp only: image_Un)
      then show ?thesis by (simp add: image_image)
    qed
    have fresh: "?t k \<notin> fst ` set d"
    proof
      assume "?t k \<in> fst ` set d"
      with keys consider p where "p \<in> fst ` set P" "?t k = ?t p" | "?t k = k"
        | s where "s \<in> fst ` set S" "?t k = s" by auto
      then show False
      proof cases
        case 1
        then show ?thesis using dP by metis
      next
        case 2
        then show ?thesis using False by simp
      next
        case 3
        then have "?t s = ?t k" using idem [of k] by simp
        then show ?thesis using dS 3(1) by blast
      qed
    qed
    have "mset (rename_step tr (k, v) d) = filter_mset (\<lambda>x. fst x \<noteq> k) (mset (d @ [(?t k, v)]))"
      using False by (simp add: rename_step_def Let_def update_fresh [OF fresh] mset_delete)
    also have "\<dots> = filter_mset (\<lambda>x. fst x \<noteq> k) (image_mset ?ren (mset P)) +
        filter_mset (\<lambda>x. fst x \<noteq> k) (mset S) + {#(?t k, v)#}"
      using False by (simp add: Cons.prems(2) x)
    also have "filter_mset (\<lambda>x. fst x \<noteq> k) (image_mset ?ren (mset P)) = image_mset ?ren (mset P)"
    proof (rule filter_mset_eq_conv [THEN iffD2], intro conjI)
      show "image_mset ?ren (mset P) \<subseteq># image_mset ?ren (mset P)" by simp
      show "\<forall>b\<in>#image_mset ?ren (mset P). fst b \<noteq> k"
      proof
        fix b assume "b \<in># image_mset ?ren (mset P)"
        then obtain p where p: "p \<in> set P" "b = ?ren p" by auto
        show "fst b \<noteq> k"
        proof
          assume "fst b = k"
          with p have "?t (fst p) = k" by simp
          then have "?t (fst p) = ?t k" using idem [of "fst p"] by simp
          with dP [of "fst p"] p(1) show False by auto
        qed
      qed
      show "\<forall>a\<in>#image_mset ?ren (mset P) - image_mset ?ren (mset P). \<not> fst a \<noteq> k" by simp
    qed
    also have "filter_mset (\<lambda>x. fst x \<noteq> k) (mset S) = mset S"
    proof -
      have "fst s \<noteq> k" if "s \<in> set S" for s using dS [of "fst s"] that by auto
      then show ?thesis by (simp add: filter_mset_eq_conv)
    qed
    finally show ?thesis by simp
  qed
  have "mset (fold (rename_step tr) S (rename_step tr (k, v) d)) =
          image_mset ?ren (mset ((P @ [(k, v)]) @ S))"
    using Cons.prems(1) step by (intro Cons.IH) (simp_all add: x)
  then show ?case by (simp add: x)
qed

lemma rename_items_mset:
  fixes xs :: "(key \<times> 'v) list"
  assumes "\<And>k. translate_key tr (translate_key tr k) = translate_key tr k"
    and "distinct (map (translate_key tr) (map fst xs))"
  shows "mset (rename_items tr xs) = image_mset (\<lambda>x. (translate_key tr (fst x), snd x)) (mset xs)"
  using fold_rename_mset [of tr "[]" xs xs] assms by (simp add: rename_items_def)

lemma content_translated:
  assumes "\<And>k. translate_key tr (translate_key tr k) = translate_key tr k"
    and "collision_free tr d"
  shows "content (translated tr d) = content (rekeyed (translate_key tr) d)"
  using assms
proof (induction tr d rule: translated.induct)
  case (1 tr kvs)
  let ?t = "translate_key tr"
  let ?kvs' = "map (\<lambda>(k, v). (k, translated tr v)) kvs"
  have d: "distinct (map ?t (map fst ?kvs'))"
    using 1(3) by (simp add: comp_def case_prod_unfold)
  have r: "mset (rename_items tr ?kvs') = image_mset (\<lambda>x. (?t (fst x), snd x)) (mset ?kvs')"
    using 1(2) d by (rule rename_items_mset)
  have "mset (map (\<lambda>(k, v). (k, content v)) (rename_items tr ?kvs')) =
      image_mset (\<lambda>(k, v). (k, content v)) (mset (rename_items tr ?kvs'))"
    by simp
  also have "\<dots> = image_mset (\<lambda>x. (?t (fst x), content (translated tr (snd x)))) (mset kvs)"
    unfolding r by (simp add: multiset.map_comp comp_def case_prod_unfold)
  finally have "mset (map (\<lambda>(k, v). (k, content v)) (rename_items tr ?kvs')) =
      image_mset (\<lambda>x. (?t (fst x), content (translated tr (snd x)))) (mset kvs)" .
  moreover have "mset (map (\<lambda>(k, v). (k, content v)) (map (\<lambda>(k, v). (?t k, rekeyed ?t v)) kvs)) =
      image_mset (\<lambda>x. (?t (fst x), content (rekeyed ?t (snd x)))) (mset kvs)"
    by (simp add: comp_def case_prod_unfold)
  moreover have "content (translated tr (snd x)) = content (rekeyed ?t (snd x))" if "x \<in> set kvs" for x
  proof -
    obtain k v where x: "x = (k, v)" by (cases x)
    from 1(3) that x have "collision_free tr v" by (auto simp: list_all_iff)
    with 1(1) [of "(k, v)" k v] that x 1(2) show ?thesis by simp
  qed
  ultimately show ?case by (auto intro!: image_mset_cong)
qed simp_all

lemma escape_distinct_plain:
  assumes "distinct (map fst kvs)" and "\<And>x. x \<in> set kvs \<Longrightarrow> set (fst x) \<inter> set ESCAPED = {}"
  shows "distinct (map (translate_key ESCAPE_TRANSLATION) (map fst kvs))"
proof -
  have "inj_on (translate_key ESCAPE_TRANSLATION) (set (map fst kvs))"
    by (rule inj_on_inverseI [where g = "translate_key UNESCAPE_TRANSLATION"])
       (use assms(2) in \<open>auto simp: unescape_escape_key\<close>)
  with assms(1) show ?thesis by (simp only: distinct_map simp_thms)
qed

lemma plain_collision_free: "wf_doc d \<Longrightarrow> plain_keys d \<Longrightarrow> collision_free ESCAPE_TRANSLATION d"
proof (induction d)
  case (Dict kvs)
  have "distinct (map (translate_key ESCAPE_TRANSLATION) (map fst kvs))"
    using Dict.prems by (intro escape_distinct_plain) (fastforce simp: list_all_iff case_prod_unfold)+
  moreover have "collision_free ESCAPE_TRANSLATION (snd x)" if "x \<in> set kvs" for x
  proof -
    have "wf_doc (snd x)" "plain_keys (snd x)"
      using Dict.prems that by (fastforce simp: list_all_iff case_prod_unfold)+
    with Dict.IH [of x "snd x"] that show ?thesis by (cases x) auto
  qed
  ultimately show ?case by (auto simp: list_all_iff comp_def case_prod_unfold)
qed simp_all

lemma content_roundtrip:
  assumes "wf_doc d" and "plain_keys d"
  shows "content (translated UNESCAPE_TRANSLATION (translated ESCAPE_TRANSLATION d)) = content d"
  using assms
proof (induction d)
  case (Dict kvs)
  let ?e = "translate_key ESCAPE_TRANSLATION" and ?u = "translate_key UNESCAPE_TRANSLATION"
  let ?tE = "translated ESCAPE_TRANSLATION" and ?tU = "translated UNESCAPE_TRANSLATION"
  let ?kvs1 = "map (\<lambda>(k, v). (k, ?tE v)) kvs"
  let ?r1 = "rename_items ESCAPE_TRANSLATION ?kvs1"
  let ?ys = "map (\<lambda>(k, v). (k, ?tU v)) ?r1"
  have plain: "set (fst x) \<inter> set ESCAPED = {}" if "x \<in> set kvs" for x
    using Dict.prems(2) that by (fastforce simp: list_all_iff case_prod_unfold)
  have dk: "distinct (map fst kvs)" using Dict.prems(1) by simp
  have "distinct (map ?e (map fst ?kvs1))"
    using escape_distinct_plain [OF dk plain] by simp
  then have r1: "mset ?r1 = image_mset (\<lambda>x. (?e (fst x), snd x)) (mset ?kvs1)"
    by (intro rename_items_mset escape_key_idem)
  have "mset ?ys = image_mset (\<lambda>(k, v). (k, ?tU v)) (mset ?r1)"
    by simp
  also have "\<dots> = image_mset (\<lambda>x. (?e (fst x), ?tU (?tE (snd x)))) (mset kvs)"
    unfolding r1 by (simp add: multiset.map_comp comp_def case_prod_unfold)
  finally have ys: "mset ?ys = image_mset (\<lambda>x. (?e (fst x), ?tU (?tE (snd x)))) (mset kvs)" .
  have "mset (map ?u (map fst ?ys)) = image_mset (\<lambda>x. ?u (fst x)) (mset ?ys)"
    by (simp add: multiset.map_comp comp_def)
  also have "\<dots> = image_mset (\<lambda>x. ?u (?e (fst x))) (mset kvs)"
    unfolding ys by (simp add: multiset.map_comp comp_def)
  also have "\<dots> = image_mset fst (mset kvs)"
    by (intro image_mset_cong) (simp add: unescape_escape_key plain)
  finally have "mset (map ?u (map fst ?ys)) = mset (map fst kvs)" by simp
  with dk have "distinct (map ?u (map fst ?ys))"
    using mset_eq_imp_distinct_iff by blast
  then have r2: "mset (rename_items UNESCAPE_TRANSLATION ?ys) = image_mset (\<lambda>x. (?u (fst x), snd x)) (mset ?ys)"
    by (intro rename_items_mset unescape_key_idem)
  have "mset (map (\<lambda>(k, v). (k, content v)) (rename_items UNESCAPE_TRANSLATION ?ys)) =
      image_mset (\<lambda>(k, v). (k, content v)) (mset (rename_items UNESCAPE_TRANSLATION ?ys))"
    by simp
  also have "\<dots> = image_mset (\<lambda>x. (?u (?e (fst x)), content (?tU (?tE (snd x))))) (mset kvs)"
    unfolding r2 ys by (simp add: multiset.map_comp comp_def case_prod_unfold)
  also have "\<dots> = image_mset (\<lambda>x. (fst x, content (snd x))) (mset kvs)"
  proof (intro image_mset_cong)
    fix x assume x: "x \<in># mset kvs"
    then have "wf_doc (snd x)" "plain_keys (snd x)"
      using Dict.prems by (fastforce simp: list_all_iff case_prod_unfold)+
    with Dict.IH [of x "snd x"] x have "content (?tU (?tE (snd x))) = content (snd x)"
      by (cases x) auto
    with plain [of x] x show "(?u (?e (fst x)), content (?tU (?tE (snd x)))) = (fst x, content (snd x))"
      by (simp add: unescape_escape_key)
  qed
  finally show ?case by (simp add: comp_def case_prod_unfold)
qed simp_all

subsection \<open>Escaping and the entries of a document\<close>

text \<open>
  Claim C9, as stated, at a concrete input: a mapping with the keys \<open>.\<close> and U+FF0E. The
  escaped spelling of the first key is the second key: the entry \<open>1\<close> is stored over the
  entry \<open>2\<close>, whichever of the two the mapping lists first, and the result has one
  entry where the input has two.
\<close>

theorem escape_collision_loses_entry:
  "on_document escape_chars (Dict [([46], Scalar (1::nat)), ([65294], Scalar 2)]) =
     Some (Inr (Dict [([65294], Scalar 1)])) \<and>
   on_document escape_chars (Dict [([65294], Scalar (2::nat)), ([46], Scalar 1)]) =
     Some (Inr (Dict [([65294], Scalar 1)])) \<and>
   content (Dict [([65294], Scalar (1::nat))]) \<noteq>
     content (rekeyed (translate_key ESCAPE_TRANSLATION) (Dict [([46], Scalar 1), ([65294], Scalar 2)]))"
  by (simp add: run_simps)

text \<open>
  Claim C9, amended. On every document in which no mapping (reached through mapping
  nesting) has two keys with the same escaped spelling, \<open>escape_chars\<close> returns a document
  with the entries of the input under the rewritten keys: one entry for each entry of each
  mapping, its value the same but for the keys of the mappings in it, and scalars and
  sequences as they were. The order of the entries of a mapping is not kept.
\<close>

theorem escape_keeps_entries:
  assumes "wf_doc d" and "collision_free ESCAPE_TRANSLATION d"
  shows "\<exists>d1. on_document escape_chars d = Some (Inr d1) \<and>
              content d1 = content (rekeyed (translate_key ESCAPE_TRANSLATION) d)"
  using escape_chars_document [OF assms(1)] content_translated [OF escape_key_idem assms(2)]
  by simp

theorem escape_keeps_entries_witness:
  "wf_doc (Dict [([46, 97], Scalar (1::nat)), ([98], Dict [([36], Seq [Dict [([46], Scalar 5)]])])]) \<and>
   collision_free ESCAPE_TRANSLATION
     (Dict [([46, 97], Scalar (1::nat)), ([98], Dict [([36], Seq [Dict [([46], Scalar 5)]])])]) \<and>
   on_document escape_chars (Dict [([46, 97], Scalar (1::nat)), ([98], Dict [([36], Seq [Dict [([46], Scalar 5)]])])]) =
     Some (Inr (Dict [([98], Dict [([65284], Seq [Dict [([46], Scalar 5)]])]), ([65294, 97], Scalar 1)])) \<and>
   content (Dict [([98], Dict [([65284], Seq [Dict [([46], Scalar (5::nat))]])]), ([65294, 97], Scalar 1)]) =
     content (Dict [([65294, 97], Scalar 1), ([98], Dict [([65284], Seq [Dict [([46], Scalar 5)]])])])"
proof -
  let ?d = "Dict [([46, 97], Scalar (1::nat)), ([98], Dict [([36], Seq [Dict [([46], Scalar 5)]])])]"
  have wf: "wf_doc ?d" by simp
  have cf: "collision_free ESCAPE_TRANSLATION ?d" by (simp add: translate_key_ESCAPE)
  have e: "on_document escape_chars ?d =
      Some (Inr (Dict [([98], Dict [([65284], Seq [Dict [([46], Scalar 5)]])]), ([65294, 97], Scalar 1)]))"
    by (simp add: run_simps)
  from escape_keeps_entries [OF wf cf] e wf cf show ?thesis
    by (simp add: translate_key_ESCAPE)
qed

subsection \<open>Escaping and unescaping\<close>

text \<open>
  Claim C1, as stated, at a concrete input: a mapping whose one key is U+FF0E. Escaping
  leaves the key as it is, and unescaping the result turns it into \<open>.\<close>, which is not
  the key the document had.
\<close>

theorem roundtrip_fails_on_substitute_key:
  "on_document escape_chars (Dict [([65294], Scalar (1::nat))]) = Some (Inr (Dict [([65294], Scalar 1)])) \<and>
   on_document unescape_chars (Dict [([65294], Scalar (1::nat))]) = Some (Inr (Dict [([46], Scalar 1)])) \<and>
   content (Dict [([46], Scalar (1::nat))]) \<noteq> content (Dict [([65294], Scalar 1)])"
  by (simp add: run_simps)

text \<open>
  Claim C1, amended. On every document none of whose keys, through mapping nesting, holds
  one of the two substitute characters, escaping and then unescaping returns a document
  with the keys and values of the input: the same entries in every mapping, in some
  order, and the same scalars and sequences, the mappings inside sequences with them.
\<close>

theorem unescape_escape_roundtrip:
  assumes "wf_doc d" and "plain_keys d"
  shows "\<exists>d1 d2. on_document escape_chars d = Some (Inr d1) \<and>
                 on_document unescape_chars d1 = Some (Inr d2) \<and>
                 content d2 = content d"
  using escape_chars_document [OF assms(1)]
    unescape_chars_document [OF wf_translated [OF assms(1)], of ESCAPE_TRANSLATION]
    content_roundtrip [OF assms]
  by simp

theorem unescape_escape_roundtrip_witness:
  "wf_doc (Dict [([46, 97], Scalar (1::nat)), ([98], Dict [([36], Seq [Dict [([46], Scalar 5)]])])]) \<and>
   plain_keys (Dict [([46, 97], Scalar (1::nat)), ([98], Dict [([36], Seq [Dict [([46], Scalar 5)]])])]) \<and>
   on_document escape_chars (Dict [([46, 97], Scalar (1::nat)), ([98], Dict [([36], Seq [Dict [([46], Scalar 5)]])])]) =
     Some (Inr (Dict [([98], Dict [([65284], Seq [Dict [([46], Scalar 5)]])]), ([65294, 97], Scalar 1)])) \<and>
   on_document unescape_chars
       (Dict [([98], Dict [([65284], Seq [Dict [([46], Scalar (5::nat))]])]), ([65294, 97], Scalar 1)]) =
     Some (Inr (Dict [([98], Dict [([36], Seq [Dict [([46], Scalar 5)]])]), ([46, 97], Scalar 1)])) \<and>
   content (Dict [([98], Dict [([36], Seq [Dict [([46], Scalar (5::nat))]])]), ([46, 97], Scalar 1)]) =
     content (Dict [([46, 97], Scalar 1), ([98], Dict [([36], Seq [Dict [([46], Scalar 5)]])])])"
proof -
  let ?d = "Dict [([46, 97], Scalar (1::nat)), ([98], Dict [([36], Seq [Dict [([46], Scalar 5)]])])]"
  let ?d1 = "Dict [([98], Dict [([65284], Seq [Dict [([46], Scalar (5::nat))]])]), ([65294, 97], Scalar 1)]"
  have wf: "wf_doc ?d" by simp
  have pk: "plain_keys ?d" by (simp add: ESCAPED_def)
  have e: "on_document escape_chars ?d = Some (Inr ?d1)"
    by (simp add: run_simps)
  have u: "on_document unescape_chars ?d1 =
      Some (Inr (Dict [([98], Dict [([36], Seq [Dict [([46], Scalar 5)]])]), ([46, 97], Scalar 1)]))"
    by (simp add: run_simps)
  from unescape_escape_roundtrip [OF wf pk] e u wf pk show ?thesis
    by auto
qed

end
